theory Spec2Isabelle
  imports Complex_Main "HOL-Library.AList"
begin

section \<open>Python values and errors\<close>

text \<open>
  The embedding follows \<^verbatim>\<open>structiou/utils.py\<close>, \<^verbatim>\<open>structiou/data.py\<close> and
  \<^verbatim>\<open>structiou/metrics.py\<close>.  Python floats are idealised as real numbers (exact
  arithmetic, no rounding, no NaN); Python integers are \<^typ>\<open>int\<close>, node indices
  (a counter that starts at 0 and is only incremented) are \<^typ>\<open>nat\<close>.
  Every exception the source can raise is a value of \<open>py_error\<close>, and a function that
  can raise returns \<open>py_error + 'a\<close>.
\<close>

datatype py_error = IndexError | KeyError | AssertionError | AttributeError

text \<open>Python list indexing \<^verbatim>\<open>xs[i]\<close>: a negative index counts from the end.\<close>

definition py_getitem :: "'a list \<Rightarrow> int \<Rightarrow> py_error + 'a" where
  "py_getitem xs i =
     (let n = int (length xs) in
      if 0 \<le> i \<and> i < n then Inr (xs ! nat i)
      else if - n \<le> i \<and> i < 0 then Inr (xs ! nat (n + i))
      else Inl IndexError)"

section \<open>utils.py\<close>

text \<open>\<^verbatim>\<open>eps_eq(x, y, eps)\<close> is \<^verbatim>\<open>abs(x - y) < eps\<close>.\<close>

definition eps_eq :: "real \<Rightarrow> real \<Rightarrow> real \<Rightarrow> bool" where
  "eps_eq x y eps = (\<bar>x - y\<bar> < eps)"

text \<open>The default value of every \<^verbatim>\<open>eps\<close> parameter, \<^verbatim>\<open>1e-6\<close>.\<close>

definition default_eps :: real where
  "default_eps = 1 / 1000000"

type_synonym span = "real \<times> real"

definition span_intersection :: "span \<Rightarrow> span \<Rightarrow> span" where
  "span_intersection span1 span2 = (max (fst span1) (fst span2), min (snd span1) (snd span2))"

definition span_union :: "span \<Rightarrow> span \<Rightarrow> span" where
  "span_union span1 span2 = (min (fst span1) (fst span2), max (snd span1) (snd span2))"

definition span_iou :: "span \<Rightarrow> span \<Rightarrow> real \<Rightarrow> real" where
  "span_iou span1 span2 eps =
     (let intersection_span = span_intersection span1 span2;
          intersection = snd intersection_span - fst intersection_span;
          union_span = span_union span1 span2;
          union = snd union_span - fst union_span
      in if intersection < eps \<or> union < eps then 0 else intersection / union)"

section \<open>data.py\<close>

text \<open>
  A child of an \<^verbatim>\<open>nltk.Tree\<close> is either a string (a terminal) or a tree, so both
  are one datatype: \<open>Leaf\<close> is the string, \<open>Tree\<close> a node with its label and children.
\<close>

datatype tree = Leaf string | Tree string "tree list"

text \<open>
  An \<^verbatim>\<open>ExtendedTree\<close> carries \<^verbatim>\<open>_index\<close>, \<^verbatim>\<open>_time_range\<close>, \<^verbatim>\<open>_leaf_range\<close>, the label
  and the children.  The dictionary \<^verbatim>\<open>_index2node\<close> is computed by the constructor from
  these fields and is the function \<open>index2node_dict\<close> below.
\<close>

datatype etree = ELeaf string | ETree nat span "int \<times> int" string "etree list"

text \<open>\<^verbatim>\<open>nltk.Tree.leaves\<close> (library code): the terminals of a tree, left to right.\<close>

fun leaves :: "tree \<Rightarrow> string list" where
  "leaves (Leaf s) = [s]"
| "leaves (Tree l cs) = concat (map leaves cs)"

fun eleaves :: "etree \<Rightarrow> string list" where
  "eleaves (ELeaf s) = [s]"
| "eleaves (ETree i tr lr l cs) = concat (map eleaves cs)"

fun n_nodes :: "etree \<Rightarrow> py_error + nat"
  and n_nodes_sum :: "etree list \<Rightarrow> py_error + nat" where
  "n_nodes (ELeaf s) = Inl AttributeError"
| "n_nodes (ETree i tr lr l []) = Inl IndexError"
| "n_nodes (ETree i tr lr l (ELeaf s # cs)) =
     (if length (ELeaf s # cs) = 1 then Inr 1 else Inl AssertionError)"
| "n_nodes (ETree i tr lr l (ETree i' tr' lr' l' cs' # cs)) =
     (case n_nodes_sum (ETree i' tr' lr' l' cs' # cs) of
        Inl e \<Rightarrow> Inl e
      | Inr k \<Rightarrow> Inr (k + 1))"
| "n_nodes_sum [] = Inr 0"
| "n_nodes_sum (c # cs) =
     (case n_nodes c of
        Inl e \<Rightarrow> Inl e
      | Inr k \<Rightarrow> (case n_nodes_sum cs of Inl e \<Rightarrow> Inl e | Inr m \<Rightarrow> Inr (k + m)))"

fun is_preterminal :: "etree \<Rightarrow> bool" where
  "is_preterminal (ETree i tr lr l [ELeaf s]) = True"
| "is_preterminal t = False"


text \<open>
  \<^verbatim>\<open>from_tree_and_leaf_timestamps\<close>.  The nested \<^verbatim>\<open>construct_tree\<close> increments the
  non-local counter \<^verbatim>\<open>global_index\<close>; here the counter is passed in and returned.
  The \<^verbatim>\<open>for child in node\<close> loop is \<open>construct_children\<close>, which threads
  \<^verbatim>\<open>current_left\<close>, the counter and the list of children built so far.
  A timestamp is \<^verbatim>\<open>(token, start, end)\<close>; \<^verbatim>\<open>[-2]\<close> is the start and \<^verbatim>\<open>[-1]\<close> the end.
\<close>

type_synonym timestamp = "string \<times> real \<times> real"

fun construct_tree ::
    "timestamp list \<Rightarrow> tree \<Rightarrow> int \<Rightarrow> int \<Rightarrow> nat \<Rightarrow> py_error + (etree \<times> nat)"
  and construct_children ::
    "timestamp list \<Rightarrow> tree list \<Rightarrow> int \<Rightarrow> nat \<Rightarrow> py_error + (etree list \<times> int \<times> nat)"
  where
  "construct_tree ts (Leaf s) left right global_index =
     (case py_getitem ts left of
        Inl e \<Rightarrow> Inl e
      | Inr lt \<Rightarrow>
        (case py_getitem ts (right - 1) of
           Inl e \<Rightarrow> Inl e
         | Inr rt \<Rightarrow> Inl AttributeError))"
| "construct_tree ts (Tree l cs) left right global_index =
     (case construct_children ts cs left (global_index + 1) of
        Inl e \<Rightarrow> Inl e
      | Inr (children, current_left, global_index') \<Rightarrow>
        (case py_getitem ts left of
           Inl e \<Rightarrow> Inl e
         | Inr lt \<Rightarrow>
           (case py_getitem ts (right - 1) of
              Inl e \<Rightarrow> Inl e
            | Inr rt \<Rightarrow>
              Inr (ETree global_index (fst (snd lt), snd (snd rt)) (left + 1, right) l children,
                   global_index'))))"
| "construct_children ts [] current_left global_index = Inr ([], current_left, global_index)"
| "construct_children ts (Leaf s # cs) current_left global_index =
     (case construct_children ts cs (current_left + 1) global_index of
        Inl e \<Rightarrow> Inl e
      | Inr (children, current_left', global_index') \<Rightarrow>
          Inr (ELeaf s # children, current_left', global_index'))"
| "construct_children ts (Tree l' cs' # cs) current_left global_index =
     (case construct_tree ts (Tree l' cs') current_left
             (current_left + int (length (leaves (Tree l' cs')))) global_index of
        Inl e \<Rightarrow> Inl e
      | Inr (child, global_index') \<Rightarrow>
        (case construct_children ts cs
                (current_left + int (length (leaves (Tree l' cs')))) global_index' of
           Inl e \<Rightarrow> Inl e
         | Inr (children, current_left', global_index'') \<Rightarrow>
             Inr (child # children, current_left', global_index'')))"

definition from_tree_and_leaf_timestamps :: "tree \<Rightarrow> timestamp list \<Rightarrow> py_error + etree" where
  "from_tree_and_leaf_timestamps tree leaf_timestamps =
     (case construct_tree leaf_timestamps tree 0 (int (length leaf_timestamps)) 0 of
        Inl e \<Rightarrow> Inl e
      | Inr (t, global_index) \<Rightarrow> Inr t)"



text \<open>
  \<^verbatim>\<open>ExtendedTree.__init__\<close> builds \<^verbatim>\<open>_index2node\<close>: the dictionary \<^verbatim>\<open>{index: self}\<close>,
  updated with the dictionary of every child that has one (a string child has none).
  A Python dictionary is an association list with distinct keys in insertion order;
  \<^verbatim>\<open>d.update(other)\<close> stores the items of \<^verbatim>\<open>other\<close> one by one.
\<close>

definition dict_update :: "('k \<times> 'v) list \<Rightarrow> ('k \<times> 'v) list \<Rightarrow> ('k \<times> 'v) list" where
  "dict_update d other = fold (\<lambda>kv acc. AList.update (fst kv) (snd kv) acc) other d"

fun index2node_dict :: "etree \<Rightarrow> (nat \<times> etree) list" where
  "index2node_dict (ELeaf s) = []"
| "index2node_dict (ETree i tr lr l cs) =
     fold (\<lambda>child d. dict_update d (index2node_dict child)) cs [(i, ETree i tr lr l cs)]"

text \<open>The methods of \<^verbatim>\<open>ExtendedTree\<close>; on a string they raise \<^verbatim>\<open>AttributeError\<close>.\<close>

fun index2node :: "etree \<Rightarrow> nat \<Rightarrow> py_error + etree" where
  "index2node (ELeaf s) k = Inl AttributeError"
| "index2node (ETree i tr lr l cs) k =
     (case map_of (index2node_dict (ETree i tr lr l cs)) k of
        None \<Rightarrow> Inl KeyError
      | Some node \<Rightarrow> Inr node)"

fun index :: "etree \<Rightarrow> py_error + nat" where
  "index (ELeaf s) = Inl AttributeError"
| "index (ETree i tr lr l cs) = Inr i"

fun subtree_indices :: "etree \<Rightarrow> py_error + nat list" where
  "subtree_indices (ELeaf s) = Inl AttributeError"
| "subtree_indices (ETree i tr lr l cs) =
     Inr (sort (map fst (index2node_dict (ETree i tr lr l cs))))"

fun leaf_range :: "etree \<Rightarrow> py_error + (int \<times> int)" where
  "leaf_range (ELeaf s) = Inl AttributeError"
| "leaf_range (ETree i tr lr l cs) = Inr lr"

fun time_range :: "etree \<Rightarrow> py_error + span" where
  "time_range (ELeaf s) = Inl AttributeError"
| "time_range (ETree i tr lr l cs) = Inr tr"

fun label :: "etree \<Rightarrow> py_error + string" where
  "label (ELeaf s) = Inl AttributeError"
| "label (ETree i tr lr l cs) = Inr l"

section \<open>metrics.py\<close>

subsection \<open>Loops and arrays\<close>

text \<open>A \<^verbatim>\<open>for\<close> loop whose body may raise: the first error ends the loop.\<close>

fun for_loop :: "'a list \<Rightarrow> ('a \<Rightarrow> 's \<Rightarrow> py_error + 's) \<Rightarrow> 's \<Rightarrow> py_error + 's" where
  "for_loop [] body s = Inr s"
| "for_loop (x # xs) body s =
     (case body x s of Inl e \<Rightarrow> Inl e | Inr s' \<Rightarrow> for_loop xs body s')"

lemma for_loop_cong [fundef_cong]:
  "xs = ys \<Longrightarrow> s = t \<Longrightarrow> (\<And>x u. x \<in> set ys \<Longrightarrow> f x u = g x u)
   \<Longrightarrow> for_loop xs f s = for_loop ys g t"
proof (induction ys arbitrary: xs s t)
  case Nil
  then show ?case by simp
next
  case (Cons y ys)
  have step: "f y t = g y t" using Cons.prems by simp
  have rest: "\<And>s'. for_loop ys f s' = for_loop ys g s'"
    using Cons.prems by (intro Cons.IH) simp_all
  show ?case using Cons.prems(1,2) step rest by (simp split: sum.splits)
qed

text \<open>\<^verbatim>\<open>range(n)\<close> for a Python integer \<^verbatim>\<open>n\<close>: empty when \<^verbatim>\<open>n \<le> 0\<close>.\<close>

definition py_range :: "int \<Rightarrow> int list" where
  "py_range n = map int [0..<nat n]"

text \<open>
  A two-dimensional \<^verbatim>\<open>numpy\<close> array is its shape and its entries.  An index \<^verbatim>\<open>i\<close> into
  an axis of length \<^verbatim>\<open>n\<close> is valid for \<^verbatim>\<open>-n \<le> i < n\<close> (a negative one counts from the
  end) and raises \<^verbatim>\<open>IndexError\<close> otherwise.
\<close>

type_synonym ndarray = "nat \<times> nat \<times> (nat \<times> nat \<Rightarrow> real)"

definition np_full :: "nat \<Rightarrow> nat \<Rightarrow> real \<Rightarrow> ndarray" where
  "np_full rows cols v = (rows, cols, \<lambda>ij. v)"

definition np_index :: "nat \<Rightarrow> int \<Rightarrow> py_error + nat" where
  "np_index n i =
     (if 0 \<le> i \<and> i < int n then Inr (nat i)
      else if - int n \<le> i \<and> i < 0 then Inr (nat (int n + i))
      else Inl IndexError)"

definition np_get :: "ndarray \<Rightarrow> int \<Rightarrow> int \<Rightarrow> py_error + real" where
  "np_get a i j =
     (case a of (rows, cols, d) \<Rightarrow>
        (case np_index rows i of
           Inl e \<Rightarrow> Inl e
         | Inr i' \<Rightarrow> (case np_index cols j of Inl e \<Rightarrow> Inl e | Inr j' \<Rightarrow> Inr (d (i', j')))))"

definition np_set :: "ndarray \<Rightarrow> int \<Rightarrow> int \<Rightarrow> real \<Rightarrow> py_error + ndarray" where
  "np_set a i j v =
     (case a of (rows, cols, d) \<Rightarrow>
        (case np_index rows i of
           Inl e \<Rightarrow> Inl e
         | Inr i' \<Rightarrow>
           (case np_index cols j of
              Inl e \<Rightarrow> Inl e
            | Inr j' \<Rightarrow> Inr (rows, cols, d((i', j') := v)))))"

text \<open>\<^verbatim>\<open>a * (a > t)\<close>: an entry is kept when it exceeds \<^verbatim>\<open>t\<close> and becomes 0 otherwise.\<close>

definition np_threshold :: "ndarray \<Rightarrow> real \<Rightarrow> ndarray" where
  "np_threshold a t =
     (case a of (rows, cols, d) \<Rightarrow> (rows, cols, \<lambda>ij. d ij * (if d ij > t then 1 else 0)))"

subsection \<open>The tree aligner\<close>

text \<open>
  The fields of a \<^verbatim>\<open>TreeAligner\<close>.  \<^verbatim>\<open>max_matching_weights\<close> is the memo table (an
  entry of -1 means "not computed"), \<^verbatim>\<open>trace\<close> is a \<^verbatim>\<open>defaultdict(set)\<close>: a key
  that was never stored reads as the empty set.
\<close>

record tree_aligner =
  ptree :: etree
  gtree :: etree
  threshold_iou :: real
  flexible_terminal_alignment :: bool
  n_ptree :: nat
  n_gtree :: nat
  span_ious :: ndarray
  max_matching_weights :: ndarray
  trace :: "nat \<times> nat \<Rightarrow> (nat \<times> nat) set"

definition TreeAligner_init :: "etree \<Rightarrow> etree \<Rightarrow> real \<Rightarrow> bool \<Rightarrow> py_error + tree_aligner" where
  "TreeAligner_init pt gt thr flexible =
     (case n_nodes pt of
        Inl e \<Rightarrow> Inl e
      | Inr np \<Rightarrow>
     (case n_nodes gt of
        Inl e \<Rightarrow> Inl e
      | Inr ng \<Rightarrow>
     (case for_loop [0..<np] (\<lambda>i a.
             for_loop [0..<ng] (\<lambda>j a.
               (case index2node pt i of
                  Inl e \<Rightarrow> Inl e
                | Inr pn \<Rightarrow>
               (case time_range pn of
                  Inl e \<Rightarrow> Inl e
                | Inr prange \<Rightarrow>
               (case index2node gt j of
                  Inl e \<Rightarrow> Inl e
                | Inr gn \<Rightarrow>
               (case time_range gn of
                  Inl e \<Rightarrow> Inl e
                | Inr grange \<Rightarrow>
                    np_set a (int i) (int j) (span_iou prange grange default_eps)))))) a)
             (np_full np ng 0) of
        Inl e \<Rightarrow> Inl e
      | Inr ious \<Rightarrow>
          Inr \<lparr> ptree = pt, gtree = gt, threshold_iou = thr,
                flexible_terminal_alignment = flexible,
                n_ptree = np, n_gtree = ng,
                span_ious = np_threshold ious thr,
                max_matching_weights = np_full np ng (- 1),
                trace = (\<lambda>k. {}) \<rparr>)))"

text \<open>
  The local \<^verbatim>\<open>trace\<close> of \<^verbatim>\<open>align\<close> and \<^verbatim>\<open>__call__\<close> is a \<^verbatim>\<open>defaultdict(set)\<close> keyed by
  pairs of Python integers.
\<close>

type_synonym cell_trace = "int \<times> int \<Rightarrow> (nat \<times> nat) set"

text \<open>
  The two innermost loops of \<^verbatim>\<open>align\<close> (lines 83 to 89) and of \<^verbatim>\<open>__call__\<close> (lines 122
  to 128), which are the same code: every source cell \<^verbatim>\<open>(a, b)\<close> with
  \<^verbatim>\<open>a < pnode_lleaf\<close> and \<^verbatim>\<open>b < gnode_lleaf\<close> proposes its value plus the weight of the
  aligned pair for the cell \<^verbatim>\<open>(pnode_rleaf, gnode_rleaf)\<close>.  \<open>propose\<close> is the loop
  body (lines 85 to 89), \<open>relax_cells\<close> the two loops around it.
\<close>

definition propose ::
    "int \<times> int \<Rightarrow> real \<Rightarrow> (nat \<times> nat) set \<Rightarrow> int \<Rightarrow> int
     \<Rightarrow> ndarray \<times> cell_trace \<Rightarrow> py_error + (ndarray \<times> cell_trace)" where
  "propose target subtree_matching_weight subtree_trace
           pnode_source_endpoint gnode_source_endpoint st =
     (case target of (pnode_rleaf, gnode_rleaf) \<Rightarrow>
      case st of (M, tr) \<Rightarrow>
        (case np_get M pnode_source_endpoint gnode_source_endpoint of
           Inl e \<Rightarrow> Inl e
         | Inr m \<Rightarrow>
        (case np_get M pnode_rleaf gnode_rleaf of
           Inl e \<Rightarrow> Inl e
         | Inr cur \<Rightarrow>
             if m + subtree_matching_weight > cur then
               (case np_set M pnode_rleaf gnode_rleaf (m + subtree_matching_weight) of
                  Inl e \<Rightarrow> Inl e
                | Inr M' \<Rightarrow>
                    Inr (M', tr((pnode_rleaf, gnode_rleaf) :=
                           tr (pnode_source_endpoint, gnode_source_endpoint) \<union> subtree_trace)))
             else Inr (M, tr))))"

definition relax_cells ::
    "ndarray \<times> cell_trace \<Rightarrow> int \<times> int \<Rightarrow> int \<times> int \<Rightarrow> real \<Rightarrow> (nat \<times> nat) set
     \<Rightarrow> py_error + (ndarray \<times> cell_trace)" where
  "relax_cells st prange grange subtree_matching_weight subtree_trace =
     (case prange of (pnode_lleaf, pnode_rleaf) \<Rightarrow>
      case grange of (gnode_lleaf, gnode_rleaf) \<Rightarrow>
        for_loop (py_range pnode_lleaf) (\<lambda>pnode_source_endpoint st.
          for_loop (py_range gnode_lleaf) (\<lambda>gnode_source_endpoint st.
            propose (pnode_rleaf, gnode_rleaf) subtree_matching_weight subtree_trace
              pnode_source_endpoint gnode_source_endpoint st) st) st)"

text \<open>
  The final scan over all cells (lines 90 to 94 and 129 to 133): the running best weight and
  its trace are replaced whenever a cell is strictly larger.  In \<^verbatim>\<open>align\<close> the running
  best lives in \<^verbatim>\<open>self.max_matching_weights[pnode_index, gnode_index]\<close> and
  \<^verbatim>\<open>self.trace[pnode_index, gnode_index]\<close>: it is read from there before the scan and
  written back after it (line 96 then adds the span IoU of the pair, which is never
  modified after \<^verbatim>\<open>__init__\<close>, and line 97 the pair itself).
\<close>

definition scan_cells ::
    "ndarray \<Rightarrow> cell_trace \<Rightarrow> real \<times> (nat \<times> nat) set \<Rightarrow> py_error + (real \<times> (nat \<times> nat) set)" where
  "scan_cells M tr best =
     for_loop (py_range (int (fst M))) (\<lambda>pnode_rleaf best.
       for_loop (py_range (int (fst (snd M)))) (\<lambda>gnode_rleaf best.
         (case np_get M pnode_rleaf gnode_rleaf of
            Inl e \<Rightarrow> Inl e
          | Inr m \<Rightarrow>
              if m > fst best then Inr (m, tr (pnode_rleaf, gnode_rleaf)) else Inr best)) best) best"

text \<open>The table of the interval dynamic programme: \<^verbatim>\<open>-1e10\<close> everywhere, 0 at \<^verbatim>\<open>[0, 0]\<close>.\<close>

definition initial_table :: "nat \<Rightarrow> nat \<Rightarrow> py_error + ndarray" where
  "initial_table n_pnode_leaves n_gnode_leaves =
     np_set (np_full (n_pnode_leaves + 1) (n_gnode_leaves + 1) (- 10000000000)) 0 0 0"

text \<open>
  Every entry of \<^verbatim>\<open>_index2node\<close> other than the node's own is a proper subtree; this
  is what makes the recursion of \<^verbatim>\<open>align\<close> terminate.
\<close>


lemma set_alist_update: "set (AList.update k v d) \<subseteq> insert (k, v) (set d)"
  by (induction d) auto

lemma set_dict_update: "set (dict_update d other) \<subseteq> set d \<union> set other"
proof (induction other arbitrary: d)
  case Nil
  then show ?case by (simp add: dict_update_def)
next
  case (Cons kv other)
  have "set (dict_update (AList.update (fst kv) (snd kv) d) other)
        \<subseteq> set (AList.update (fst kv) (snd kv) d) \<union> set other"
    using Cons.IH by simp
  moreover have "dict_update d (kv # other) = dict_update (AList.update (fst kv) (snd kv) d) other"
    by (simp add: dict_update_def)
  ultimately show ?case using set_alist_update [of "fst kv" "snd kv" d] by auto
qed

lemma set_fold_dict_update:
  "set (fold (\<lambda>child d. dict_update d (f child)) cs d0) \<subseteq> set d0 \<union> (\<Union>c\<in>set cs. set (f c))"
proof (induction cs arbitrary: d0)
  case Nil
  then show ?case by simp
next
  case (Cons c cs)
  show ?case using Cons.IH [of "dict_update d0 (f c)"] set_dict_update [of d0 "f c"] by auto
qed

lemma size_child_less: "c \<in> set cs \<Longrightarrow> size c < size (ETree i tr lr l cs)"
  by (induction cs) auto

lemma index2node_dict_size: "(k, u) \<in> set (index2node_dict t) \<Longrightarrow> size u \<le> size t"
proof (induction t arbitrary: k u rule: index2node_dict.induct)
  case (1 s)
  then show ?case by simp
next
  case (2 i tr lr l cs)
  from "2.prems" set_fold_dict_update [of index2node_dict cs "[(i, ETree i tr lr l cs)]"]
  have "(k, u) = (i, ETree i tr lr l cs) \<or> (\<exists>c\<in>set cs. (k, u) \<in> set (index2node_dict c))"
    by auto
  then show ?case
  proof
    assume "(k, u) = (i, ETree i tr lr l cs)" then show ?thesis by simp
  next
    assume "\<exists>c\<in>set cs. (k, u) \<in> set (index2node_dict c)"
    then obtain c where c: "c \<in> set cs" "(k, u) \<in> set (index2node_dict c)" by blast
    from "2.IH" [OF c] size_child_less [OF c(1), of i tr lr l] show ?thesis by simp
  qed
qed

lemma index2node_dict_proper:
  assumes "(k, u) \<in> set (index2node_dict (ETree i tr lr l cs))" "k \<noteq> i"
  shows "size u < size (ETree i tr lr l cs)"
proof -
  from assms set_fold_dict_update [of index2node_dict cs "[(i, ETree i tr lr l cs)]"]
  obtain c where c: "c \<in> set cs" "(k, u) \<in> set (index2node_dict c)" by auto
  from index2node_dict_size [OF c(2)] size_child_less [OF c(1), of i tr lr l] show ?thesis by simp
qed

lemma index2node_proper:
  "index2node (ETree i tr lr l cs) k = Inr u \<Longrightarrow> k \<noteq> i \<Longrightarrow> size u < size (ETree i tr lr l cs)"
  using index2node_dict_proper [of k u i tr lr l cs]
  by (auto split: option.splits dest: map_of_SomeD simp del: index2node_dict.simps)


text \<open>
  \<^verbatim>\<open>TreeAligner.align\<close>.  The aligner \<^verbatim>\<open>self\<close> is passed in and returned, since the memo
  table and the traces are updated in place.  The recursive calls pass no \<^verbatim>\<open>eps\<close> and so
  use the default.
\<close>

function align ::
    "tree_aligner \<Rightarrow> etree \<Rightarrow> etree \<Rightarrow> real
     \<Rightarrow> py_error + ((real \<times> (nat \<times> nat) set) \<times> tree_aligner)" where
  "align self (ELeaf s) gnode eps = Inl AttributeError"
| "align self (ETree pnode_index ptr plr pl pcs) (ELeaf s) eps = Inl AttributeError"
| "align self (ETree pnode_index ptr plr pl pcs) (ETree gnode_index gtr glr gl gcs) eps =
     (case np_get (max_matching_weights self) (int pnode_index) (int gnode_index) of
        Inl e \<Rightarrow> Inl e
      | Inr memo \<Rightarrow>
     if memo \<ge> 0 then Inr ((memo, trace self (pnode_index, gnode_index)), self)
     else
     (case np_get (span_ious self) (int pnode_index) (int gnode_index) of
        Inl e \<Rightarrow> Inl e
      | Inr iou \<Rightarrow>
     if eps_eq iou 0 eps
        \<or> (\<not> is_preterminal (ETree pnode_index ptr plr pl pcs)
            \<and> \<not> is_preterminal (ETree gnode_index gtr glr gl gcs) \<and> pl \<noteq> gl)
        \<or> (\<not> flexible_terminal_alignment self \<and> pl \<noteq> gl)
     then
       (case np_set (max_matching_weights self) (int pnode_index) (int gnode_index) 0 of
          Inl e \<Rightarrow> Inl e
        | Inr mmw \<Rightarrow>
            Inr ((0, {}),
                 self\<lparr>max_matching_weights := mmw,
                      trace := (trace self)((pnode_index, gnode_index) := {})\<rparr>))
     else if is_preterminal (ETree pnode_index ptr plr pl pcs)
             \<or> is_preterminal (ETree gnode_index gtr glr gl gcs)
     then
       (case np_set (max_matching_weights self) (int pnode_index) (int gnode_index) iou of
          Inl e \<Rightarrow> Inl e
        | Inr mmw \<Rightarrow>
            Inr ((iou, {(pnode_index, gnode_index)}),
                 self\<lparr>max_matching_weights := mmw,
                      trace := (trace self)((pnode_index, gnode_index) :=
                                 {(pnode_index, gnode_index)})\<rparr>))
     else
     (case initial_table (length (eleaves (ETree pnode_index ptr plr pl pcs)))
                         (length (eleaves (ETree gnode_index gtr glr gl gcs))) of
        Inl e \<Rightarrow> Inl e
      | Inr M0 \<Rightarrow>
     (case subtree_indices (ETree pnode_index ptr plr pl pcs) of
        Inl e \<Rightarrow> Inl e
      | Inr p_indices \<Rightarrow>
     (case for_loop p_indices (\<lambda>pnode_subtree_index st.
             if pnode_subtree_index = pnode_index then Inr st
             else
             (case subtree_indices (ETree gnode_index gtr glr gl gcs) of
                Inl e \<Rightarrow> Inl e
              | Inr g_indices \<Rightarrow>
             for_loop g_indices (\<lambda>gnode_subtree_index st.
               if gnode_subtree_index = gnode_index then Inr st
               else
               (case st of (self1, M, tr) \<Rightarrow>
               (case index2node (ETree pnode_index ptr plr pl pcs) pnode_subtree_index of
                  Inl e \<Rightarrow> Inl e
                | Inr pn \<Rightarrow>
               (case leaf_range pn of
                  Inl e \<Rightarrow> Inl e
                | Inr p_lr \<Rightarrow>
               (case index2node (ETree gnode_index gtr glr gl gcs) gnode_subtree_index of
                  Inl e \<Rightarrow> Inl e
                | Inr gn \<Rightarrow>
               (case leaf_range gn of
                  Inl e \<Rightarrow> Inl e
                | Inr g_lr \<Rightarrow>
               (case align self1 pn gn default_eps of
                  Inl e \<Rightarrow> Inl e
                | Inr ((subtree_matching_weight, subtree_trace), self2) \<Rightarrow>
               (case relax_cells (M, tr)
                       (fst p_lr - fst plr + 1, snd p_lr - fst plr + 1)
                       (fst g_lr - fst glr + 1, snd g_lr - fst glr + 1)
                       subtree_matching_weight subtree_trace of
                  Inl e \<Rightarrow> Inl e
                | Inr (M', tr') \<Rightarrow> Inr (self2, M', tr')))))))))
               st))
             (self, M0, \<lambda>k. {}) of
        Inl e \<Rightarrow> Inl e
      | Inr (self1, M, tr) \<Rightarrow>
     (case np_get (max_matching_weights self1) (int pnode_index) (int gnode_index) of
        Inl e \<Rightarrow> Inl e
      | Inr current \<Rightarrow>
     (case scan_cells M tr (current, trace self1 (pnode_index, gnode_index)) of
        Inl e \<Rightarrow> Inl e
      | Inr (best, best_trace) \<Rightarrow>
     (case np_set (max_matching_weights self1) (int pnode_index) (int gnode_index) (best + iou) of
        Inl e \<Rightarrow> Inl e
      | Inr mmw \<Rightarrow>
          Inr ((best + iou, insert (pnode_index, gnode_index) best_trace),
               self1\<lparr>max_matching_weights := mmw,
                     trace := (trace self1)((pnode_index, gnode_index) :=
                                insert (pnode_index, gnode_index) best_trace)\<rparr>)))))))))"
  by pat_completeness auto
termination
  apply (relation "measure (\<lambda>(self, pnode, gnode, eps). size pnode)")
   apply simp
  apply (auto dest!: index2node_proper simp del: index2node.simps)
  done

text \<open>
  \<^verbatim>\<open>TreeAligner.__call__\<close>.  The division is by \<^verbatim>\<open>n_nodes(P) + n_nodes(G)\<close>, which is at
  least 2 whenever both calls return.
\<close>

definition TreeAligner_call ::
    "tree_aligner \<Rightarrow> py_error + ((real \<times> (nat \<times> nat) set) \<times> tree_aligner)" where
  "TreeAligner_call self =
     (case align self (ptree self) (gtree self) default_eps of
        Inl e \<Rightarrow> Inl e
      | Inr ((max_weight, max_weight_trace), self0) \<Rightarrow>
     (case initial_table (length (eleaves (ptree self))) (length (eleaves (gtree self))) of
        Inl e \<Rightarrow> Inl e
      | Inr M0 \<Rightarrow>
     (case subtree_indices (ptree self) of
        Inl e \<Rightarrow> Inl e
      | Inr p_indices \<Rightarrow>
     (case for_loop p_indices (\<lambda>pnode_subtree_index st.
             (case subtree_indices (gtree self) of
                Inl e \<Rightarrow> Inl e
              | Inr g_indices \<Rightarrow>
             for_loop g_indices (\<lambda>gnode_subtree_index st.
               if pnode_subtree_index = 0 \<and> gnode_subtree_index = 0 then Inr st
               else
               (case st of (self1, M, tr) \<Rightarrow>
               (case index2node (ptree self) pnode_subtree_index of
                  Inl e \<Rightarrow> Inl e
                | Inr pn \<Rightarrow>
               (case leaf_range pn of
                  Inl e \<Rightarrow> Inl e
                | Inr p_lr \<Rightarrow>
               (case index2node (gtree self) gnode_subtree_index of
                  Inl e \<Rightarrow> Inl e
                | Inr gn \<Rightarrow>
               (case leaf_range gn of
                  Inl e \<Rightarrow> Inl e
                | Inr g_lr \<Rightarrow>
               (case align self1 pn gn default_eps of
                  Inl e \<Rightarrow> Inl e
                | Inr ((subtree_matching_weight, subtree_trace), self2) \<Rightarrow>
               (case relax_cells (M, tr) p_lr g_lr subtree_matching_weight subtree_trace of
                  Inl e \<Rightarrow> Inl e
                | Inr (M', tr') \<Rightarrow> Inr (self2, M', tr')))))))))
               st))
             (self0, M0, \<lambda>k. {}) of
        Inl e \<Rightarrow> Inl e
      | Inr (self1, M, tr) \<Rightarrow>
     (case scan_cells M tr (max_weight, max_weight_trace) of
        Inl e \<Rightarrow> Inl e
      | Inr (best, best_trace) \<Rightarrow>
     (case n_nodes (ptree self) of
        Inl e \<Rightarrow> Inl e
      | Inr np \<Rightarrow>
     (case n_nodes (gtree self) of
        Inl e \<Rightarrow> Inl e
      | Inr ng \<Rightarrow>
          Inr ((best * 2 / (real np + real ng), best_trace), self1))))))))"

definition struct_iou :: "etree \<Rightarrow> etree \<Rightarrow> real \<Rightarrow> bool \<Rightarrow> py_error + real" where
  "struct_iou pt gt thr flexible =
     (case TreeAligner_init pt gt thr flexible of
        Inl e \<Rightarrow> Inl e
      | Inr self \<Rightarrow>
     (case TreeAligner_call self of
        Inl e \<Rightarrow> Inl e
      | Inr ((score, tr), self') \<Rightarrow> Inr score))"

section \<open>Well-formed trees\<close>

text \<open>
  A well-formed label tree (the input the library is written for): every node is either a
  preterminal, whose only child is a terminal string, or a nonterminal with one or more
  children that are all nodes.
\<close>

fun wf_tree :: "tree \<Rightarrow> bool" where
  "wf_tree (Leaf s) = False"
| "wf_tree (Tree l [Leaf s]) = True"
| "wf_tree (Tree l cs) = (cs \<noteq> [] \<and> (\<forall>c\<in>set cs. wf_tree c))"

text \<open>The nodes of an annotated tree in pre-order, and their number.\<close>

fun preorder :: "etree \<Rightarrow> etree list" where
  "preorder (ELeaf s) = []"
| "preorder (ETree i tr lr l cs) = ETree i tr lr l cs # concat (map preorder cs)"

fun node_count :: "etree \<Rightarrow> nat" where
  "node_count (ELeaf s) = 0"
| "node_count (ETree i tr lr l cs) = 1 + sum_list (map node_count cs)"

fun node_index :: "etree \<Rightarrow> nat" where
  "node_index (ELeaf s) = 0"
| "node_index (ETree i tr lr l cs) = i"

text \<open>The children of a node that are nodes themselves (not terminal strings).\<close>

fun is_node :: "etree \<Rightarrow> bool" where
  "is_node (ELeaf s) = False"
| "is_node (ETree i tr lr l cs) = True"

fun node_children :: "etree \<Rightarrow> etree list" where
  "node_children (ELeaf s) = []"
| "node_children (ETree i tr lr l cs) = filter is_node cs"

text \<open>
  A well-formed annotated tree: the node is numbered \<open>i\<close>, its descendants are numbered
  consecutively in pre-order after it, its leaf range starts at \<open>l\<close> and covers as many leaf
  positions as it has leaves, and it is a preterminal or has only nodes as children, whose
  leaf ranges follow one another without gap.  The root has index 0 and its leaf range
  starts at 1.  Time ranges are not constrained.
\<close>

fun wf_at :: "etree \<Rightarrow> nat \<Rightarrow> int \<Rightarrow> bool"
  and wf_children_at :: "etree list \<Rightarrow> nat \<Rightarrow> int \<Rightarrow> bool" where
  "wf_at (ELeaf s) i l = False"
| "wf_at (ETree i' tr lr lab cs) i l =
     (i' = i \<and> lr = (l, l + int (length (eleaves (ETree i' tr lr lab cs))) - 1)
      \<and> (is_preterminal (ETree i' tr lr lab cs) \<or> (cs \<noteq> [] \<and> wf_children_at cs (i + 1) l)))"
| "wf_children_at [] i l = True"
| "wf_children_at (c # cs) i l =
     (wf_at c i l \<and> wf_children_at cs (i + node_count c) (l + int (length (eleaves c))))"

definition well_formed :: "etree \<Rightarrow> bool" where
  "well_formed t = wf_at t 0 1"

section \<open>The alignment weight as a function of the two nodes\<close>

text \<open>
  \<open>align\<close> threads the memo table through every call.  What it computes is a function of
  the two nodes and the configuration alone, which is defined here without the memo table
  and without errors; the refinement theorem below shows that on well-formed trees
  \<open>align\<close> returns exactly this weight.  The interval dynamic programme is written over a
  list of edges: an edge \<open>((pl, gl), (pr, gr), w)\<close> lets every cell \<open>(a, b)\<close> with
  \<open>a < pl\<close> and \<open>b < gl\<close> propose its value plus \<open>w\<close> for the cell \<open>(pr, gr)\<close>.
\<close>

fun node_time :: "etree \<Rightarrow> span" where
  "node_time (ELeaf s) = (0, 0)"
| "node_time (ETree i tr lr l cs) = tr"

fun node_leaf_range :: "etree \<Rightarrow> int \<times> int" where
  "node_leaf_range (ELeaf s) = (0, 0)"
| "node_leaf_range (ETree i tr lr l cs) = lr"

fun node_label :: "etree \<Rightarrow> string" where
  "node_label (ELeaf s) = []"
| "node_label (ETree i tr lr l cs) = l"

definition iou_entry :: "real \<Rightarrow> etree \<Rightarrow> etree \<Rightarrow> real" where
  "iou_entry thr u v =
     (let s = span_iou (node_time u) (node_time v) default_eps
      in s * (if s > thr then 1 else 0))"

definition rejects :: "bool \<Rightarrow> real \<Rightarrow> etree \<Rightarrow> etree \<Rightarrow> bool" where
  "rejects flexible iou u v =
     (eps_eq iou 0 default_eps
      \<or> (\<not> is_preterminal u \<and> \<not> is_preterminal v \<and> node_label u \<noteq> node_label v)
      \<or> (\<not> flexible \<and> node_label u \<noteq> node_label v))"

type_synonym table = "nat \<times> nat \<Rightarrow> real"

definition table0 :: table where
  "table0 = (\<lambda>c. - 10000000000)((0, 0) := 0)"

type_synonym edge = "(nat \<times> nat) \<times> (nat \<times> nat) \<times> real"

definition relax_edge :: "edge \<Rightarrow> table \<Rightarrow> table" where
  "relax_edge e M =
     (case e of ((pl, gl), tgt, w) \<Rightarrow>
        if pl = 0 \<or> gl = 0 then M
        else M(tgt := max (M tgt) (Max (M ` ({..<pl} \<times> {..<gl})) + w)))"

definition best_cell :: "nat \<Rightarrow> nat \<Rightarrow> table \<Rightarrow> real" where
  "best_cell n m M = Max (M ` ({..n} \<times> {..m}))"

definition local_range :: "etree \<Rightarrow> etree \<Rightarrow> nat \<times> nat" where
  "local_range u u' =
     (nat (fst (node_leaf_range u') - fst (node_leaf_range u) + 1),
      nat (snd (node_leaf_range u') - fst (node_leaf_range u) + 1))"

definition pair_edge :: "(etree \<Rightarrow> nat \<times> nat) \<Rightarrow> (etree \<Rightarrow> nat \<times> nat) \<Rightarrow> real \<Rightarrow> etree \<Rightarrow> etree \<Rightarrow> edge" where
  "pair_edge fp fg w u' v' = ((fst (fp u'), fst (fg v')), (snd (fp u'), snd (fg v')), w)"

lemma preorder_size: "u' \<in> set (preorder u) \<Longrightarrow> size u' \<le> size u"
proof (induction u arbitrary: u')
  case (ELeaf s)
  then show ?case by simp
next
  case (ETree i tr lr l cs)
  show ?case
  proof (cases "u' = ETree i tr lr l cs")
    case True then show ?thesis by simp
  next
    case False
    with ETree.prems obtain c where c: "c \<in> set cs" "u' \<in> set (preorder c)" by auto
    from ETree.IH [OF c] size_child_less [OF c(1), of i tr lr l] show ?thesis by simp
  qed
qed

lemma preorder_tl_size: "u' \<in> set (tl (preorder u)) \<Longrightarrow> size u' < size u"
proof (cases u)
  case (ELeaf s)
  assume "u' \<in> set (tl (preorder u))"
  with ELeaf show ?thesis by simp
next
  case (ETree i tr lr l cs)
  assume "u' \<in> set (tl (preorder u))"
  with ETree obtain c where c: "c \<in> set cs" "u' \<in> set (preorder c)" by auto
  from preorder_size [OF c(2)] size_child_less [OF c(1), of i tr lr l] ETree show ?thesis by simp
qed

function align_weight :: "real \<Rightarrow> bool \<Rightarrow> etree \<Rightarrow> etree \<Rightarrow> real" where
  "align_weight thr flexible u v =
     (let iou = iou_entry thr u v in
      if rejects flexible iou u v then 0
      else if is_preterminal u \<or> is_preterminal v then iou
      else iou + best_cell (length (eleaves u)) (length (eleaves v))
             (fold (\<lambda>u' M. fold (\<lambda>v' M.
                      relax_edge (pair_edge (local_range u) (local_range v)
                                   (align_weight thr flexible u' v') u' v') M)
                    (tl (preorder v)) M)
                (tl (preorder u)) table0))"
  by pat_completeness auto
termination
  by (relation "measure (\<lambda>(thr, flexible, u, v). size u)") (auto dest: preorder_tl_size)

declare align_weight.simps [simp del]


text \<open>
  The top level of \<^verbatim>\<open>__call__\<close>: every pair of nodes except the pair of the two roots.
\<close>

definition align_edges :: "real \<Rightarrow> bool \<Rightarrow> etree \<Rightarrow> etree \<Rightarrow> edge list" where
  "align_edges thr flexible u v =
     map (\<lambda>(u', v'). pair_edge (local_range u) (local_range v) (align_weight thr flexible u' v') u' v')
       (List.product (tl (preorder u)) (tl (preorder v)))"

definition top_edges :: "real \<Rightarrow> bool \<Rightarrow> etree \<Rightarrow> etree \<Rightarrow> edge list" where
  "top_edges thr flexible p g =
     map (\<lambda>(u', v'). pair_edge (local_range p) (local_range g) (align_weight thr flexible u' v') u' v')
       (filter (\<lambda>(u', v'). \<not> (node_index u' = 0 \<and> node_index v' = 0))
          (List.product (preorder p) (preorder g)))"

definition best_weight :: "real \<Rightarrow> bool \<Rightarrow> etree \<Rightarrow> etree \<Rightarrow> real" where
  "best_weight thr flexible p g =
     max (align_weight thr flexible p g)
         (best_cell (length (eleaves p)) (length (eleaves g))
            (fold relax_edge (top_edges thr flexible p g) table0))"

text \<open>
  The node at position \<open>k\<close> of the pre-order of a well-formed tree: it is well formed with
  index \<open>i + k\<close>, its leaf range lies inside the leaf range of the tree, and its own
  pre-order is the slice of the tree's pre-order that starts at \<open>k\<close>.
\<close>

definition sub_ok :: "etree list \<Rightarrow> nat \<Rightarrow> int \<Rightarrow> int \<Rightarrow> nat \<Rightarrow> bool" where
  "sub_ok xs i l L k \<longleftrightarrow>
     (\<exists>l'. wf_at (xs ! k) (i + k) l' \<and> l \<le> l' \<and> l' + int (length (eleaves (xs ! k))) \<le> l + L)
     \<and> k + node_count (xs ! k) \<le> length xs
     \<and> (\<forall>m<node_count (xs ! k). preorder (xs ! k) ! m = xs ! (k + m))"

text \<open>
  The state of an aligner for the trees \<open>p\<close> and \<open>g\<close> as \<open>TreeAligner_init\<close> leaves it
  and as \<open>align\<close> keeps it: the span IoU table holds the thresholded span IoU of every pair
  of nodes, and every memo entry is either still negative or holds the alignment weight of
  its pair.  For a rejected pair the stored trace is empty, for an accepted pair with a
  preterminal it is the pair itself.
\<close>

definition simple_trace :: "real \<Rightarrow> bool \<Rightarrow> etree \<Rightarrow> etree \<Rightarrow> (nat \<times> nat) set \<Rightarrow> bool" where
  "simple_trace thr flexible u v t \<longleftrightarrow>
     (rejects flexible (iou_entry thr u v) u v \<longrightarrow> t = {})
     \<and> (\<not> rejects flexible (iou_entry thr u v) u v \<and> (is_preterminal u \<or> is_preterminal v)
          \<longrightarrow> t = {(node_index u, node_index v)})"

definition memo_ok :: "real \<Rightarrow> bool \<Rightarrow> etree \<Rightarrow> etree \<Rightarrow> tree_aligner \<Rightarrow> bool" where
  "memo_ok thr flexible p g self \<longleftrightarrow>
     ptree self = p \<and> gtree self = g \<and> flexible_terminal_alignment self = flexible
     \<and> (\<exists>d. span_ious self = (node_count p, node_count g, d)
            \<and> (\<forall>i<node_count p. \<forall>j<node_count g.
                  d (i, j) = iou_entry thr (preorder p ! i) (preorder g ! j)))
     \<and> (\<exists>m. max_matching_weights self = (node_count p, node_count g, m)
            \<and> (\<forall>i<node_count p. \<forall>j<node_count g.
                  m (i, j) < 0
                  \<or> (m (i, j) = align_weight thr flexible (preorder p ! i) (preorder g ! j)
                      \<and> simple_trace thr flexible (preorder p ! i) (preorder g ! j)
                           (trace self (i, j)))))"

text \<open>The memo rows above row \<open>b\<close> are the same in two aligner states.\<close>

definition rows_kept :: "nat \<Rightarrow> tree_aligner \<Rightarrow> tree_aligner \<Rightarrow> bool" where
  "rows_kept b self self' \<longleftrightarrow>
     (\<forall>i<b. \<forall>j. snd (snd (max_matching_weights self')) (i, j)
                    = snd (snd (max_matching_weights self)) (i, j)
                 \<and> trace self' (i, j) = trace self (i, j))"

text \<open>
  The body of the loops over the pairs of subtree indices (lines 80 to 89 of \<open>align\<close>, with
  the leaf positions made relative to the two nodes).
\<close>

definition pair_step ::
    "etree \<Rightarrow> etree \<Rightarrow> int \<Rightarrow> int \<Rightarrow> nat \<Rightarrow> nat
     \<Rightarrow> tree_aligner \<times> ndarray \<times> cell_trace \<Rightarrow> py_error + (tree_aligner \<times> ndarray \<times> cell_trace)" where
  "pair_step pnode gnode min_p min_g pnode_subtree_index gnode_subtree_index st =
     (case st of (self1, M, tr) \<Rightarrow>
     (case index2node pnode pnode_subtree_index of
        Inl e \<Rightarrow> Inl e
      | Inr pn \<Rightarrow>
     (case leaf_range pn of
        Inl e \<Rightarrow> Inl e
      | Inr p_lr \<Rightarrow>
     (case index2node gnode gnode_subtree_index of
        Inl e \<Rightarrow> Inl e
      | Inr gn \<Rightarrow>
     (case leaf_range gn of
        Inl e \<Rightarrow> Inl e
      | Inr g_lr \<Rightarrow>
     (case align self1 pn gn default_eps of
        Inl e \<Rightarrow> Inl e
      | Inr ((subtree_matching_weight, subtree_trace), self2) \<Rightarrow>
     (case relax_cells (M, tr)
             (fst p_lr - min_p + 1, snd p_lr - min_p + 1)
             (fst g_lr - min_g + 1, snd g_lr - min_g + 1)
             subtree_matching_weight subtree_trace of
        Inl e \<Rightarrow> Inl e
      | Inr (M', tr') \<Rightarrow> Inr (self2, M', tr'))))))))"

text \<open>The edge of a pair of nodes given by their indices.\<close>

definition index_edge :: "real \<Rightarrow> bool \<Rightarrow> etree \<Rightarrow> etree \<Rightarrow> nat \<Rightarrow> nat \<Rightarrow> nat \<times> nat \<Rightarrow> edge" where
  "index_edge thr flexible P G i j kk =
     pair_edge (local_range (preorder P ! i)) (local_range (preorder G ! j))
       (align_weight thr flexible (preorder P ! fst kk) (preorder G ! snd kk))
       (preorder P ! fst kk) (preorder G ! snd kk)"

text \<open>
  A table is closed under an edge (\<open>edge_closed\<close>) when no source cell of the edge can improve its target;
  \<open>nosrc e e'\<close> says that the target of \<open>e'\<close> is not a source cell of \<open>e\<close>, and a list of
  edges is ordered when no edge writes a cell that itself or an earlier edge reads.
\<close>

definition edge_closed :: "table \<Rightarrow> edge \<Rightarrow> bool" where
  "edge_closed T e \<longleftrightarrow> (case e of ((pl, gl), tgt, w) \<Rightarrow> \<forall>a<pl. \<forall>b<gl. T (a, b) + w \<le> T tgt)"

definition nosrc :: "edge \<Rightarrow> edge \<Rightarrow> bool" where
  "nosrc e e' \<longleftrightarrow>
     (case e of ((pl, gl), tgt, w) \<Rightarrow> case e' of (src', (pr', gr'), w') \<Rightarrow> \<not> (pr' < pl \<and> gr' < gl))"

fun ordered :: "edge list \<Rightarrow> bool" where
  "ordered [] = True"
| "ordered (e # es) = (nosrc e e \<and> (\<forall>e'\<in>set es. nosrc e e') \<and> ordered es)"

text \<open>
  The number of nodes of \<open>u\<close>, from position \<open>k0\<close> of its pre-order on, whose leaf range
  (relative to \<open>u\<close>) ends at or before \<open>r\<close>; and the table of these counts for two trees,
  which bounds every table of the dynamic programme.
\<close>

definition count_upto :: "etree \<Rightarrow> nat \<Rightarrow> nat \<Rightarrow> nat" where
  "count_upto u k0 r = length (filter (\<lambda>x. snd (local_range u x) \<le> r) (drop k0 (preorder u)))"

definition bound_table :: "etree \<Rightarrow> etree \<Rightarrow> nat \<Rightarrow> nat \<Rightarrow> table" where
  "bound_table u v k0 k0' = (\<lambda>(r, c). real (min (count_upto u k0 r) (count_upto v k0' c)))"

text \<open>The transpose of an edge: the two trees exchanged.\<close>

definition tr_edge :: "edge \<Rightarrow> edge" where
  "tr_edge e = (case e of ((a, b), (c, d), w) \<Rightarrow> ((b, a), (d, c), w))"

text \<open>Every node of the tree has a time range at least \<open>\<epsilon>\<close> wide.\<close>

definition full_width :: "etree \<Rightarrow> bool" where
  "full_width T = list_all (\<lambda>x. default_eps \<le> snd (node_time x) - fst (node_time x)) (preorder T)"

section \<open>Properties of the span IoU\<close>

lemma span_iou_range: "0 < eps \<Longrightarrow> 0 \<le> span_iou a b eps \<and> span_iou a b eps \<le> 1"
proof -
  assume e: "0 < eps"
  define i where "i = min (snd a) (snd b) - max (fst a) (fst b)"
  define u where "u = max (snd a) (snd b) - min (fst a) (fst b)"
  have iu: "i \<le> u" unfolding i_def u_def by (simp add: min_def max_def split: if_splits)
  have s: "span_iou a b eps = (if i < eps \<or> u < eps then 0 else i / u)"
    by (simp add: span_iou_def span_intersection_def span_union_def Let_def i_def u_def)
  show ?thesis
  proof (cases "i < eps \<or> u < eps")
    case True then show ?thesis by (simp add: s)
  next
    case False
    with e have "0 < i" "0 < u" by auto
    with iu False show ?thesis by (simp add: s)
  qed
qed

lemma span_iou_nonneg: "0 < eps \<Longrightarrow> 0 \<le> span_iou a b eps"
  using span_iou_range by blast

lemma span_iou_le_1: "0 < eps \<Longrightarrow> span_iou a b eps \<le> 1"
  using span_iou_range by blast

lemma default_eps_pos: "0 < default_eps"
  by (simp add: default_eps_def)

text \<open>
  Claim C7.  For every pair of spans and every positive \<open>eps\<close> (the default is \<open>1e-6\<close>),
  \<open>span_iou\<close> returns 0 when the intersection width
  \<open>min (ends) - max (starts)\<close> or the union width \<open>max (ends) - min (starts)\<close> is below
  \<open>eps\<close>, returns intersection / union otherwise, and the result lies in \<open>[0, 1]\<close>.
\<close>

theorem span_iou_spec:
  "0 < eps \<Longrightarrow>
   span_iou a b eps =
     (if min (snd a) (snd b) - max (fst a) (fst b) < eps
         \<or> max (snd a) (snd b) - min (fst a) (fst b) < eps
      then 0
      else (min (snd a) (snd b) - max (fst a) (fst b))
           / (max (snd a) (snd b) - min (fst a) (fst b)))
   \<and> 0 \<le> span_iou a b eps \<and> span_iou a b eps \<le> 1"
  using span_iou_range [of eps a b]
  by (simp add: span_iou_def span_intersection_def span_union_def Let_def)

theorem span_iou_spec_witness:
  "0 < default_eps \<and> span_iou (1, 3) (2, 4) default_eps = 1 / 3
   \<and> span_iou (1, 2) (2, 4) default_eps = 0"
proof -
  have h: "0 < default_eps" by (rule default_eps_pos)
  show ?thesis
    using h span_iou_spec [OF h, of "(1, 3)" "(2, 4)"] span_iou_spec [OF h, of "(1, 2)" "(2, 4)"]
    by (simp add: default_eps_def)
qed

section \<open>Properties of the construction\<close>

subsection \<open>The tokens of the timestamps are never read\<close>

lemma py_getitem_snd:
  "map snd ts1 = map snd ts2 \<Longrightarrow>
   map_sum id snd (py_getitem ts1 i) = map_sum id snd (py_getitem ts2 i)"
proof -
  assume m: "map snd ts1 = map snd ts2"
  then have len: "length ts1 = length ts2" by (rule map_eq_imp_length_eq)
  have nth: "\<And>k. k < length ts2 \<Longrightarrow> snd (ts1 ! k) = snd (ts2 ! k)"
    using m len by (metis nth_map)
  show ?thesis using len nth by (auto simp: py_getitem_def Let_def)
qed

lemma py_getitem_snd_cases:
  assumes "map snd ts1 = map snd ts2"
  shows "(\<exists>e. py_getitem ts1 i = Inl e \<and> py_getitem ts2 i = Inl e)
       \<or> (\<exists>x y. py_getitem ts1 i = Inr x \<and> py_getitem ts2 i = Inr y \<and> snd x = snd y)"
  using py_getitem_snd [OF assms, of i]
  by (cases "py_getitem ts1 i"; cases "py_getitem ts2 i") auto

lemma construct_tokens:
  "map snd ts1 = map snd ts2 \<Longrightarrow>
     construct_tree ts1 t left right g = construct_tree ts2 t left right g"
  "map snd ts1 = map snd ts2 \<Longrightarrow>
     construct_children ts1 cs cl g = construct_children ts2 cs cl g"
proof (induction ts1 t left right g and ts1 cs cl g rule: construct_tree_construct_children.induct)
  case (1 ts s left right global_index)
  show ?case
    using py_getitem_snd_cases [OF "1.prems", of left]
      py_getitem_snd_cases [OF "1.prems", of "right - 1"]
    by auto
next
  case (2 ts l cs left right global_index)
  have ch: "construct_children ts cs left (global_index + 1)
            = construct_children ts2 cs left (global_index + 1)"
    using "2.IH" "2.prems" by simp
  show ?case
    using py_getitem_snd_cases [OF "2.prems", of left]
      py_getitem_snd_cases [OF "2.prems", of "right - 1"] ch
    by (auto split: sum.splits prod.splits)
next
  case (3 ts current_left global_index)
  then show ?case by simp
next
  case (4 ts s cs current_left global_index)
  then show ?case by simp
next
  case (5 ts l' cs' cs current_left global_index)
  have t: "construct_tree ts (Tree l' cs') current_left
             (current_left + int (length (leaves (Tree l' cs')))) global_index
           = construct_tree ts2 (Tree l' cs') current_left
             (current_left + int (length (leaves (Tree l' cs')))) global_index"
    using "5.IH"(1) "5.prems" by simp
  show ?case
  proof (cases "construct_tree ts (Tree l' cs') current_left
             (current_left + int (length (leaves (Tree l' cs')))) global_index")
    case (Inl e)
    with t show ?thesis by simp
  next
    case (Inr r)
    obtain child gi where r: "r = (child, gi)" by (cases r)
    have "construct_children ts cs (current_left + int (length (leaves (Tree l' cs')))) gi
          = construct_children ts2 cs (current_left + int (length (leaves (Tree l' cs')))) gi"
      using "5.IH"(2) [OF Inr [unfolded r] refl] "5.prems" by simp
    with t Inr r show ?thesis by simp
  qed
qed

lemma from_tree_tokens:
  "map snd ts1 = map snd ts2 \<Longrightarrow>
   from_tree_and_leaf_timestamps t ts1 = from_tree_and_leaf_timestamps t ts2"
  using construct_tokens(1) [of ts1 ts2 t 0 "int (length ts1)" 0] map_eq_imp_length_eq [of snd ts1 snd ts2]
  by (simp add: from_tree_and_leaf_timestamps_def)

subsection \<open>Construction from a well-formed label tree\<close>

lemma wf_tree_Tree:
  "wf_tree (Tree l cs) \<longleftrightarrow> (\<exists>s. cs = [Leaf s]) \<or> (cs \<noteq> [] \<and> (\<forall>c\<in>set cs. wf_tree c))"
  by (cases "(Tree l cs)" rule: wf_tree.cases) auto

lemma wf_tree_leaves: "wf_tree t \<Longrightarrow> leaves t \<noteq> []"
proof (induction t)
  case (Leaf s) then show ?case by simp
next
  case (Tree l cs)
  from Tree.prems consider s where "cs = [Leaf s]" | "cs \<noteq> []" "\<forall>c\<in>set cs. wf_tree c"
    by (auto simp: wf_tree_Tree)
  then show ?case
  proof cases
    case 1 then show ?thesis by simp
  next
    case 2
    then obtain c cs' where "cs = c # cs'" by (cases cs) auto
    with 2 Tree.IH [of c] show ?thesis by auto
  qed
qed

lemma py_getitem_Inr: "0 \<le> i \<Longrightarrow> i < int (length xs) \<Longrightarrow> py_getitem xs i = Inr (xs ! nat i)"
  by (simp add: py_getitem_def)

lemma py_getitem_Inl: "int (length xs) \<le> i \<Longrightarrow> py_getitem xs i = Inl IndexError"
  by (simp add: py_getitem_def)

lemma py_getitem_error: "py_getitem xs i = Inl e \<Longrightarrow> e = IndexError"
  by (auto simp: py_getitem_def Let_def split: if_splits)

lemma construct_errors:
  "construct_tree ts t left right g = Inl e \<Longrightarrow> e = IndexError \<or> (e = AttributeError \<and> (\<exists>s. t = Leaf s))"
  "construct_children ts cs cl g = Inl e \<Longrightarrow> e = IndexError"
proof (induction ts t left right g and ts cs cl g arbitrary: e and e rule: construct_tree_construct_children.induct)
  case (1 ts s left right global_index)
  then show ?case by (auto split: sum.splits dest: py_getitem_error)
next
  case (2 ts l cs left right global_index)
  then show ?case by (auto split: sum.splits prod.splits dest: py_getitem_error)
next
  case (3 ts current_left global_index)
  then show ?case by simp
next
  case (4 ts s cs current_left global_index)
  then show ?case by (auto split: sum.splits prod.splits)
next
  case (5 ts l' cs' cs current_left global_index)
  then show ?case by (fastforce split: sum.splits prod.splits)
qed


lemma construct_ok:
  "wf_tree t \<Longrightarrow> 0 \<le> left \<Longrightarrow> left + int (length (leaves t)) \<le> int (length ts)
   \<Longrightarrow> 1 \<le> right \<Longrightarrow> right \<le> int (length ts)
   \<Longrightarrow> \<exists>T. construct_tree ts t left right g = Inr (T, g + node_count T)
        \<and> eleaves T = leaves t \<and> node_index T = g \<and> leaf_range T = Inr (left + 1, right)
        \<and> time_range T = Inr (fst (snd (ts ! nat left)), snd (snd (ts ! nat (right - 1))))
        \<and> (right = left + int (length (leaves t)) \<longrightarrow> wf_at T g (left + 1))"
  "(\<forall>c\<in>set cs. wf_tree c) \<Longrightarrow> 0 \<le> cl
   \<Longrightarrow> cl + int (length (concat (map leaves cs))) \<le> int (length ts)
   \<Longrightarrow> \<exists>chs. construct_children ts cs cl g
          = Inr (chs, cl + int (length (concat (map leaves cs))), g + sum_list (map node_count chs))
        \<and> concat (map eleaves chs) = concat (map leaves cs)
        \<and> length chs = length cs
        \<and> wf_children_at chs g (cl + 1)"
proof (induction ts t left right g and ts cs cl g rule: construct_tree_construct_children.induct)
  case (1 ts s left right global_index)
  then show ?case by simp
next
  case (2 ts l cs left right g)
  have nl: "leaves (Tree l cs) \<noteq> []" using "2.prems"(1) by (rule wf_tree_leaves)
  have "0 < length (leaves (Tree l cs))" using nl by simp
  then have "left < int (length ts)" using "2.prems"(3) by linarith
  then have gl: "py_getitem ts left = Inr (ts ! nat left)"
    using "2.prems"(2) by (intro py_getitem_Inr) auto
  have gr: "py_getitem ts (right - 1) = Inr (ts ! nat (right - 1))"
    using "2.prems" by (intro py_getitem_Inr) auto
  from "2.prems"(1) consider s where "cs = [Leaf s]" | "cs \<noteq> []" "\<forall>c\<in>set cs. wf_tree c"
    by (auto simp: wf_tree_Tree)
  then show ?case
  proof cases
    case 1
    then show ?thesis using gl gr by auto
  next
    case 2
    from "2.IH" [OF 2(2) "2.prems"(2)] "2.prems"(3)
    obtain chs where chs:
      "construct_children ts cs left (g + 1)
        = Inr (chs, left + int (length (concat (map leaves cs))), g + 1 + sum_list (map node_count chs))"
      "concat (map eleaves chs) = concat (map leaves cs)" "length chs = length cs"
      "wf_children_at chs (g + 1) (left + 1)"
      by auto
    have ne: "chs \<noteq> []" using chs(3) 2(1) by auto
    show ?thesis using chs gl gr ne by auto
  qed
next
  case (3 ts current_left global_index)
  then show ?case by simp
next
  case (4 ts s cs current_left global_index)
  then show ?case by simp
next
  case (5 ts l' cs' cs cl g)
  let ?t = "Tree l' cs'"
  let ?n = "int (length (leaves ?t))"
  have wt: "wf_tree ?t" and wcs: "\<forall>c\<in>set cs. wf_tree c" using "5.prems"(1) by auto
  have nl: "leaves ?t \<noteq> []" using wt by (rule wf_tree_leaves)
  have b1: "cl + ?n \<le> int (length ts)" using "5.prems"(3) by simp
  have b2: "1 \<le> cl + ?n" using "5.prems"(2) nl by (cases "leaves ?t") auto
  from "5.IH"(1) [OF wt "5.prems"(2) b1 b2 b1]
  obtain T where T: "construct_tree ts ?t cl (cl + ?n) g = Inr (T, g + node_count T)"
    "eleaves T = leaves ?t" "wf_at T g (cl + 1)"
    by auto
  have b3: "0 \<le> cl + ?n" using b2 by simp
  have b4: "cl + ?n + int (length (concat (map leaves cs))) \<le> int (length ts)"
    using "5.prems"(3) by simp
  from "5.IH"(2) [OF T(1) refl wcs b3 b4]
  obtain chs where chs:
    "construct_children ts cs (cl + ?n) (g + node_count T)
       = Inr (chs, cl + ?n + int (length (concat (map leaves cs))),
              g + node_count T + sum_list (map node_count chs))"
    "concat (map eleaves chs) = concat (map leaves cs)" "length chs = length cs"
    "wf_children_at chs (g + node_count T) (cl + ?n + 1)"
    by auto
  have "wf_children_at (T # chs) g (cl + 1)"
    using T(3) chs(4) T(2) by (simp add: ac_simps)
  then show ?case using T chs by (auto simp: add.assoc)
qed


lemma construct_too_many_leaves:
  "wf_tree t \<Longrightarrow> 0 \<le> left \<Longrightarrow> int (length ts) < left + int (length (leaves t))
   \<Longrightarrow> construct_tree ts t left right g = Inl IndexError"
  "(\<forall>c\<in>set cs. wf_tree c) \<Longrightarrow> 0 \<le> cl \<Longrightarrow> cs \<noteq> []
   \<Longrightarrow> int (length ts) < cl + int (length (concat (map leaves cs)))
   \<Longrightarrow> construct_children ts cs cl g = Inl IndexError"
proof (induction ts t left right g and ts cs cl g rule: construct_tree_construct_children.induct)
  case (1 ts s left right global_index)
  then show ?case by simp
next
  case (2 ts l cs left right g)
  from "2.prems"(1) consider s where "cs = [Leaf s]" | "cs \<noteq> []" "\<forall>c\<in>set cs. wf_tree c"
    by (auto simp: wf_tree_Tree)
  then show ?case
  proof cases
    case 1
    then have "int (length ts) \<le> left" using "2.prems"(3) by simp
    then have "py_getitem ts left = Inl IndexError" by (rule py_getitem_Inl)
    with 1 show ?thesis by simp
  next
    case 2
    have "construct_children ts cs left (g + 1) = Inl IndexError"
      using "2.IH" [OF 2(2) "2.prems"(2) 2(1)] "2.prems"(3) by simp
    then show ?thesis by simp
  qed
next
  case (3 ts current_left global_index)
  then show ?case by simp
next
  case (4 ts s cs current_left global_index)
  then show ?case by simp
next
  case (5 ts l' cs' cs cl g)
  let ?t = "Tree l' cs'"
  let ?n = "int (length (leaves ?t))"
  have wt: "wf_tree ?t" and wcs: "\<forall>c\<in>set cs. wf_tree c" using "5.prems"(1) by auto
  show ?case
  proof (cases "construct_tree ts ?t cl (cl + ?n) g")
    case (Inl e)
    then have "e = IndexError" using construct_errors(1) by blast
    with Inl show ?thesis by simp
  next
    case (Inr r)
    obtain child gi where r: "r = (child, gi)" by (cases r)
    have "\<not> int (length ts) < cl + ?n"
      using "5.IH"(1) [OF wt "5.prems"(2)] Inr by auto
    then have b: "0 \<le> cl + ?n" "int (length ts) < cl + ?n + int (length (concat (map leaves cs)))"
      and ne: "cs \<noteq> []"
      using "5.prems"(2,4) by auto
    have "construct_children ts cs (cl + ?n) gi = Inl IndexError"
      using "5.IH"(2) [OF Inr [unfolded r] refl wcs b(1) ne b(2)] .
    with Inr r show ?thesis by simp
  qed
qed

lemma from_tree_wf_iff:
  assumes "wf_tree t"
  shows "(\<exists>T. from_tree_and_leaf_timestamps t ts = Inr T) \<longleftrightarrow> length (leaves t) \<le> length ts"
    and "length ts < length (leaves t) \<Longrightarrow> from_tree_and_leaf_timestamps t ts = Inl IndexError"
proof -
  have nl: "0 < length (leaves t)" using wf_tree_leaves [OF assms] by simp
  have f: "from_tree_and_leaf_timestamps t ts = Inl IndexError" if "length ts < length (leaves t)"
    using construct_too_many_leaves(1) [OF assms, of 0 ts "int (length ts)" 0] that
    by (simp add: from_tree_and_leaf_timestamps_def)
  have s: "\<exists>T. from_tree_and_leaf_timestamps t ts = Inr T" if "length (leaves t) \<le> length ts"
  proof -
    have "\<exists>T. construct_tree ts t 0 (int (length ts)) 0 = Inr (T, 0 + node_count T)"
      using construct_ok(1) [OF assms, of 0 ts "int (length ts)" 0] that nl by auto
    then show ?thesis by (auto simp: from_tree_and_leaf_timestamps_def)
  qed
  show "(\<exists>T. from_tree_and_leaf_timestamps t ts = Inr T) \<longleftrightarrow> length (leaves t) \<le> length ts"
    using f s by (cases "length (leaves t) \<le> length ts") auto
  show "length ts < length (leaves t) \<Longrightarrow> from_tree_and_leaf_timestamps t ts = Inl IndexError"
    by (rule f)
qed

lemma from_tree_well_formed:
  assumes "wf_tree t" "length (leaves t) = length ts"
  shows "\<exists>T. from_tree_and_leaf_timestamps t ts = Inr T \<and> well_formed T \<and> eleaves T = leaves t"
proof -
  have nl: "0 < length (leaves t)" using wf_tree_leaves [OF assms(1)] by simp
  have "\<exists>T. construct_tree ts t 0 (int (length ts)) 0 = Inr (T, 0 + node_count T)
         \<and> eleaves T = leaves t \<and> wf_at T 0 (0 + 1)"
    using construct_ok(1) [OF assms(1), of 0 ts "int (length ts)" 0] assms(2) nl by auto
  then show ?thesis by (auto simp: from_tree_and_leaf_timestamps_def well_formed_def)
qed

lemma n_nodes_ETree:
  "n_nodes (ETree i tr lr l cs) =
     (case cs of
        [] \<Rightarrow> Inl IndexError
      | ELeaf s # cs' \<Rightarrow> if cs' = [] then Inr 1 else Inl AssertionError
      | ETree i' tr' lr' l' cs'' # cs' \<Rightarrow>
          (case n_nodes_sum cs of Inl e \<Rightarrow> Inl e | Inr k \<Rightarrow> Inr (k + 1)))"
  by (cases "ETree i tr lr l cs" rule: n_nodes.cases) auto

lemma is_preterminal_iff: "is_preterminal t \<longleftrightarrow> (\<exists>i tr lr l s. t = ETree i tr lr l [ELeaf s])"
  by (cases t rule: is_preterminal.cases) auto

lemma wf_n_nodes:
  "wf_at T i l \<Longrightarrow> n_nodes T = Inr (node_count T) \<and> is_node T"
  "wf_children_at cs i l \<Longrightarrow> n_nodes_sum cs = Inr (sum_list (map node_count cs)) \<and> (\<forall>c\<in>set cs. is_node c)"
proof (induction T i l and cs i l rule: wf_at_wf_children_at.induct)
  case (1 s i l)
  then show ?case by simp
next
  case (2 i' tr lr lab cs i l)
  show ?case
  proof (cases "is_preterminal (ETree i' tr lr lab cs)")
    case True
    then show ?thesis by (auto simp: is_preterminal_iff)
  next
    case False
    with "2.prems" have w: "cs \<noteq> []" "wf_children_at cs (i + 1) l" by auto
    from "2.IH" [OF w(2)]
    have s: "n_nodes_sum cs = Inr (sum_list (map node_count cs))" "\<forall>c\<in>set cs. is_node c" by auto
    obtain c cs' where c: "cs = c # cs'" using w(1) by (cases cs) auto
    with s(2) obtain j tr' lr' l' cs'' where "c = ETree j tr' lr' l' cs''" by (cases c) auto
    with c s(1) show ?thesis by (simp add: n_nodes_ETree del: n_nodes.simps)
  qed
next
  case (3 i l)
  then show ?case by simp
next
  case (4 c cs i l)
  then show ?case by auto
qed

lemma wf_preorder_indices:
  "wf_at T i l \<Longrightarrow> map node_index (preorder T) = [i..<i + node_count T]"
  "wf_children_at cs i l
   \<Longrightarrow> map node_index (concat (map preorder cs)) = [i..<i + sum_list (map node_count cs)]"
proof (induction T i l and cs i l rule: wf_at_wf_children_at.induct)
  case (1 s i l)
  then show ?case by simp
next
  case (2 i' tr lr lab cs i l)
  show ?case
  proof (cases "is_preterminal (ETree i' tr lr lab cs)")
    case True
    with "2.prems" show ?thesis by (auto simp: is_preterminal_iff)
  next
    case False
    with "2.prems" have w: "cs \<noteq> []" "wf_children_at cs (i + 1) l" "i' = i" by auto
    have "[i..<i + 1 + sum_list (map node_count cs)] = i # [i + 1..<i + 1 + sum_list (map node_count cs)]"
      using upt_conv_Cons [of i "i + 1 + sum_list (map node_count cs)"] by simp
    with "2.IH" [OF w(2)] w(3) show ?thesis by (simp del: upt_Suc)
  qed
next
  case (3 i l)
  then show ?case by simp
next
  case (4 c cs i l)
  then have "map node_index (preorder c) = [i..<i + node_count c]"
    "map node_index (concat (map preorder cs))
       = [i + node_count c..<i + node_count c + sum_list (map node_count cs)]"
    by auto
  moreover have "[i..<i + node_count c + sum_list (map node_count cs)]
      = [i..<i + node_count c] @ [i + node_count c..<i + node_count c + sum_list (map node_count cs)]"
    by (rule upt_add_eq_append) simp
  ultimately show ?case by (simp add: add.assoc)
qed

lemma wf_sub:
  "wf_at T i l \<Longrightarrow> u \<in> set (preorder T) \<Longrightarrow> \<exists>i' l'. wf_at u i' l'"
  "wf_children_at cs i l \<Longrightarrow> u \<in> set (concat (map preorder cs)) \<Longrightarrow> \<exists>i' l'. wf_at u i' l'"
proof (induction T i l and cs i l rule: wf_at_wf_children_at.induct)
  case (1 s i l)
  then show ?case by simp
next
  case (2 i' tr lr lab cs i l)
  show ?case
  proof (cases "u = ETree i' tr lr lab cs")
    case True
    with "2.prems" show ?thesis by blast
  next
    case False
    with "2.prems" have u: "u \<in> set (concat (map preorder cs))" by simp
    show ?thesis
    proof (cases "is_preterminal (ETree i' tr lr lab cs)")
      case True
      with u show ?thesis by (auto simp: is_preterminal_iff)
    next
      case False
      with "2.prems" have w: "cs \<noteq> []" "wf_children_at cs (i + 1) l" by auto
      from "2.IH" [OF w(2) u] show ?thesis .
    qed
  qed
next
  case (3 i l)
  then show ?case by simp
next
  case (4 c cs i l)
  then show ?case by auto
qed

lemma wf_n_nodes_children:
  assumes "wf_at u i l"
  shows "\<exists>m. n_nodes_sum (node_children u) = Inr m \<and> n_nodes u = Inr (1 + m)"
proof -
  from assms obtain i' tr lr lab cs where u: "u = ETree i' tr lr lab cs" by (cases u) auto
  show ?thesis
  proof (cases "is_preterminal u")
    case True
    then show ?thesis by (auto simp: is_preterminal_iff)
  next
    case False
    with assms u have w: "wf_children_at cs (i + 1) l" by auto
    from wf_n_nodes(2) [OF w] have "filter is_node cs = cs" by (simp add: filter_id_conv)
    with wf_n_nodes(2) [OF w] wf_n_nodes(1) [OF assms] u show ?thesis by simp
  qed
qed

section \<open>Properties of the node count\<close>

text \<open>
  Claim C10.  For every preterminal node (a node whose only child is a terminal string)
  \<open>n_nodes\<close> returns exactly 1: the terminal is not counted as a node.
\<close>

theorem n_nodes_preterminal: "is_preterminal t \<Longrightarrow> n_nodes t = Inr 1"
  by (induction t rule: is_preterminal.induct) auto

theorem n_nodes_preterminal_witness:
  "is_preterminal (ETree 3 (1, 2) (2, 2) ''NT'' [ELeaf ''am''])
   \<and> n_nodes (ETree 3 (1, 2) (2, 2) ''NT'' [ELeaf ''am'']) = Inr 1"
proof -
  have h: "is_preterminal (ETree 3 (1, 2) (2, 2) ''NT'' [ELeaf ''am''])" by simp
  show ?thesis using h n_nodes_preterminal [OF h] by simp
qed


section \<open>The claims about the construction\<close>

text \<open>
  Claim C6, as amended.  \<open>from_tree_and_leaf_timestamps\<close> validates nothing and has no
  structure error: called on a tree, the only exception it raises is the
  \<^verbatim>\<open>IndexError\<close> of reading a timestamp that does not exist.  For a well-formed label
  tree it returns an annotated tree exactly when the tree has at most as many leaves as
  there are timestamps, and raises \<^verbatim>\<open>IndexError\<close> when it has more.
\<close>

theorem construction_unvalidated:
  "(\<forall>e. from_tree_and_leaf_timestamps (Tree l cs) ts = Inl e \<longrightarrow> e = IndexError)
   \<and> (wf_tree t \<longrightarrow>
        ((\<exists>T. from_tree_and_leaf_timestamps t ts = Inr T) \<longleftrightarrow> length (leaves t) \<le> length ts)
        \<and> (length ts < length (leaves t)
             \<longrightarrow> from_tree_and_leaf_timestamps t ts = Inl IndexError))"
proof -
  have "e = IndexError" if "from_tree_and_leaf_timestamps (Tree l cs) ts = Inl e" for e
  proof -
    from that have "construct_tree ts (Tree l cs) 0 (int (length ts)) 0 = Inl e"
      by (auto simp: from_tree_and_leaf_timestamps_def split: sum.splits prod.splits)
    from construct_errors(1) [OF this] show ?thesis by simp
  qed
  then show ?thesis using from_tree_wf_iff [of t ts] by blast
qed

theorem construction_unvalidated_witness:
  "wf_tree (Tree ''NT'' [Tree ''NT'' [Leaf ''a''], Tree ''NT'' [Leaf ''b'']])
   \<and> (\<exists>T. from_tree_and_leaf_timestamps (Tree ''NT'' [Tree ''NT'' [Leaf ''a''], Tree ''NT'' [Leaf ''b'']])
             [(''a'', 0, 1), (''b'', 1, 2), (''c'', 2, 3)] = Inr T)
   \<and> from_tree_and_leaf_timestamps (Tree ''NT'' [Tree ''NT'' [Leaf ''a''], Tree ''NT'' [Leaf ''b'']])
        [(''a'', 0, 1)] = Inl IndexError"
proof -
  let ?t = "Tree ''NT'' [Tree ''NT'' [Leaf ''a''], Tree ''NT'' [Leaf ''b'']]"
  have w: "wf_tree ?t" by simp
  show ?thesis
    using w construction_unvalidated [of "''NT''" "[]" "[(''a'', 0, 1), (''b'', 1, 2), (''c'', 2, 3)]" ?t]
      construction_unvalidated [of "''NT''" "[]" "[(''a'', 0, 1)]" ?t]
    by simp
qed

text \<open>
  The claim as stated fails: a tree with one leaf and two timestamps, and a node with two
  terminal children, are both turned into annotated trees without any error.
\<close>

theorem construction_unvalidated_counterexample:
  "from_tree_and_leaf_timestamps (Tree ''NT'' [Leaf ''a'']) [(''a'', 0, 1), (''b'', 1, 2)]
     = Inr (ETree 0 (0, 2) (1, 2) ''NT'' [ELeaf ''a''])
   \<and> from_tree_and_leaf_timestamps (Tree ''NT'' [Leaf ''a'', Leaf ''b'']) [(''a'', 0, 1), (''b'', 1, 2)]
     = Inr (ETree 0 (0, 2) (1, 2) ''NT'' [ELeaf ''a'', ELeaf ''b''])"
  by (simp add: from_tree_and_leaf_timestamps_def py_getitem_def)

text \<open>
  Claim C8, as amended.  An annotated tree built from a well-formed label tree with as many
  timestamps as leaves exists and satisfies: the node indices, read in pre-order, are
  \<open>0, 1, \<dots>, n_nodes - 1\<close>; \<open>n_nodes\<close> of every node is 1 plus the sum of \<open>n_nodes\<close> of
  its child nodes; and the leaf range of the root is \<open>(1, n_leaves)\<close>.
\<close>

theorem built_tree_invariants:
  "wf_tree t \<Longrightarrow> length (leaves t) = length ts \<Longrightarrow>
   \<exists>T n. from_tree_and_leaf_timestamps t ts = Inr T
     \<and> n_nodes T = Inr n \<and> map node_index (preorder T) = [0..<n]
     \<and> (\<forall>u\<in>set (preorder T). \<exists>m. n_nodes_sum (node_children u) = Inr m \<and> n_nodes u = Inr (1 + m))
     \<and> leaf_range T = Inr (1, int (length (eleaves T)))"
proof -
  assume a: "wf_tree t" "length (leaves t) = length ts"
  from from_tree_well_formed [OF a] obtain T where
    T: "from_tree_and_leaf_timestamps t ts = Inr T" "wf_at T 0 1"
    by (auto simp: well_formed_def)
  have n: "n_nodes T = Inr (node_count T)" using wf_n_nodes(1) [OF T(2)] by simp
  have p: "map node_index (preorder T) = [0..<node_count T]"
    using wf_preorder_indices(1) [OF T(2)] by simp
  have c: "\<exists>m. n_nodes_sum (node_children u) = Inr m \<and> n_nodes u = Inr (1 + m)"
    if "u \<in> set (preorder T)" for u
    using wf_sub(1) [OF T(2) that] wf_n_nodes_children by blast
  have l: "leaf_range T = Inr (1, int (length (eleaves T)))"
    using T(2) by (cases T) auto
  show ?thesis using T(1) n p c l by blast
qed

theorem built_tree_invariants_witness:
  "wf_tree (Tree ''S'' [Tree ''A'' [Leaf ''a''], Tree ''B'' [Leaf ''b'']])
   \<and> length (leaves (Tree ''S'' [Tree ''A'' [Leaf ''a''], Tree ''B'' [Leaf ''b'']]))
       = length [(''a'', 0 :: real, 1 :: real), (''b'', 1, 2)]
   \<and> (\<exists>T n. from_tree_and_leaf_timestamps (Tree ''S'' [Tree ''A'' [Leaf ''a''], Tree ''B'' [Leaf ''b'']])
               [(''a'', 0, 1), (''b'', 1, 2)] = Inr T
        \<and> n_nodes T = Inr n \<and> map node_index (preorder T) = [0..<n]
        \<and> (\<forall>u\<in>set (preorder T). \<exists>m. n_nodes_sum (node_children u) = Inr m \<and> n_nodes u = Inr (1 + m))
        \<and> leaf_range T = Inr (1, int (length (eleaves T))))"
proof -
  let ?t = "Tree ''S'' [Tree ''A'' [Leaf ''a''], Tree ''B'' [Leaf ''b'']]"
  let ?ts = "[(''a'', 0 :: real, 1 :: real), (''b'', 1, 2)]"
  have h1: "wf_tree ?t" by simp
  have h2: "length (leaves ?t) = length ?ts" by simp
  from built_tree_invariants [OF h1 h2] h1 h2 show ?thesis by blast
qed

text \<open>
  The claim as stated, for every tree the construction returns, fails: with one leaf and two
  timestamps the root's leaf range is \<open>(1, 2)\<close> although the tree has a single leaf.
\<close>

theorem built_tree_invariants_counterexample:
  "from_tree_and_leaf_timestamps (Tree ''NT'' [Leaf ''a'']) [(''a'', 0, 1), (''b'', 1, 2)]
     = Inr (ETree 0 (0, 2) (1, 2) ''NT'' [ELeaf ''a''])
   \<and> leaf_range (ETree 0 (0, 2) (1, 2) ''NT'' [ELeaf ''a'']) = Inr (1, 2)
   \<and> int (length (eleaves (ETree 0 (0, 2) (1, 2) ''NT'' [ELeaf ''a''])))  = 1"
  by (simp add: from_tree_and_leaf_timestamps_def py_getitem_def)


text \<open>
  Claim C9.  The token strings of the timestamps do not influence the result: for two
  timestamp sequences with the same start and end times, the construction returns the same
  result (the same tree, with the same indices, labels, time ranges and leaf ranges, or the
  same error), and \<open>struct_iou\<close> of the built trees against any other tree, on either side,
  is the same.
\<close>

theorem tokens_irrelevant:
  "map snd ts1 = map snd ts2 \<Longrightarrow>
   from_tree_and_leaf_timestamps t ts1 = from_tree_and_leaf_timestamps t ts2
   \<and> (\<forall>T1 T2 other thr flexible.
        from_tree_and_leaf_timestamps t ts1 = Inr T1 \<and> from_tree_and_leaf_timestamps t ts2 = Inr T2
        \<longrightarrow> T1 = T2
            \<and> struct_iou T1 other thr flexible = struct_iou T2 other thr flexible
            \<and> struct_iou other T1 thr flexible = struct_iou other T2 thr flexible)"
  using from_tree_tokens [of ts1 ts2 t] by auto

theorem tokens_irrelevant_witness:
  "map snd [(''a'', 0 :: real, 1 :: real), (''b'', 1, 2)] = map snd [(''x'', 0, 1), (''yy'', 1, 2)]
   \<and> from_tree_and_leaf_timestamps (Tree ''S'' [Tree ''A'' [Leaf ''a''], Tree ''B'' [Leaf ''b'']])
        [(''a'', 0, 1), (''b'', 1, 2)]
     = from_tree_and_leaf_timestamps (Tree ''S'' [Tree ''A'' [Leaf ''a''], Tree ''B'' [Leaf ''b'']])
        [(''x'', 0, 1), (''yy'', 1, 2)]"
proof -
  have h: "map snd [(''a'', 0 :: real, 1 :: real), (''b'', 1, 2)] = map snd [(''x'', 0, 1), (''yy'', 1, 2)]"
    by simp
  from tokens_irrelevant [OF h] h show ?thesis by blast
qed

section \<open>The index dictionary of a well-formed tree\<close>

lemma map_of_rev_distinct: "distinct (map fst xs) \<Longrightarrow> map_of (rev xs) = map_of xs"
proof (induction xs)
  case Nil
  then show ?case by simp
next
  case (Cons x xs)
  then have "fst x \<notin> dom (map_of xs)" by (simp add: dom_map_of_conv_image_fst)
  then have "map_of xs (fst x) = None" by blast
  with Cons show ?case by (auto simp: map_of_append map_add_def fun_eq_iff split: option.splits)
qed

lemma map_of_dict_update_rev: "map_of (dict_update d other) = map_of d ++ map_of (rev other)"
proof (induction other arbitrary: d)
  case Nil
  then show ?case by (simp add: dict_update_def)
next
  case (Cons kv other)
  have "dict_update d (kv # other) = dict_update (AList.update (fst kv) (snd kv) d) other"
    by (simp add: dict_update_def)
  then show ?case
    using Cons.IH [of "AList.update (fst kv) (snd kv) d"]
    by (cases kv) (simp add: update_conv' map_of_append fun_eq_iff map_add_def split: option.splits)
qed

lemma map_of_dict_update:
  "distinct (map fst other) \<Longrightarrow> map_of (dict_update d other) = map_of d ++ map_of other"
  by (simp add: map_of_dict_update_rev map_of_rev_distinct)

lemma distinct_dict_update: "distinct (map fst d) \<Longrightarrow> distinct (map fst (dict_update d other))"
proof (induction other arbitrary: d)
  case Nil
  then show ?case by (simp add: dict_update_def)
next
  case (Cons kv other)
  have "dict_update d (kv # other) = dict_update (AList.update (fst kv) (snd kv) d) other"
    by (simp add: dict_update_def)
  with Cons.IH [of "AList.update (fst kv) (snd kv) d"] Cons.prems show ?case
    by (simp add: distinct_update)
qed

lemma distinct_fold_dict_update:
  "distinct (map fst d0) \<Longrightarrow> distinct (map fst (fold (\<lambda>child d. dict_update d (f child)) cs d0))"
  by (induction cs arbitrary: d0) (auto simp: distinct_dict_update)

lemma index2node_dict_distinct: "distinct (map fst (index2node_dict T))"
  by (cases T) (auto simp: distinct_fold_dict_update)

lemma length_preorder: "length (preorder T) = node_count T"
proof (induction T)
  case (ELeaf s)
  then show ?case by simp
next
  case (ETree i tr lr l cs)
  have "length (concat (map preorder cs)) = sum_list (map node_count cs)"
    using ETree.IH by (induction cs) auto
  then show ?case by simp
qed

lemma length_concat_preorder:
  "length (concat (map preorder cs)) = sum_list (map node_count cs)"
  by (induction cs) (auto simp: length_preorder)

lemma wf_dict_lookup:
  "wf_at T i l \<Longrightarrow>
     map_of (index2node_dict T) k
       = (if i \<le> k \<and> k < i + node_count T then Some (preorder T ! (k - i)) else None)"
  "wf_children_at cs i l \<Longrightarrow>
     map_of (fold (\<lambda>child d. dict_update d (index2node_dict child)) cs d0) k
       = (if i \<le> k \<and> k < i + sum_list (map node_count cs)
          then Some (concat (map preorder cs) ! (k - i)) else map_of d0 k)"
proof (induction T i l and cs i l arbitrary: k and d0 k rule: wf_at_wf_children_at.induct)
  case (1 s i l)
  then show ?case by simp
next
  case (2 i' tr lr lab cs i l)
  show ?case
  proof (cases "is_preterminal (ETree i' tr lr lab cs)")
    case True
    with "2.prems" show ?thesis by (auto simp: is_preterminal_iff dict_update_def)
  next
    case False
    with "2.prems" have w: "wf_children_at cs (i + 1) l" "i' = i" by auto
    note IH = "2.IH" [OF w(1), of "[(i', ETree i' tr lr lab cs)]" k]
    show ?thesis
    proof (cases "i + 1 \<le> k \<and> k < i + 1 + sum_list (map node_count cs)")
      case True
      then have "k - i = Suc (k - (i + 1))" by linarith
      with True IH w(2) show ?thesis by simp
    next
      case False
      with IH w(2) show ?thesis by auto
    qed
  qed
next
  case (3 i l)
  show ?case by auto
next
  case (4 c cs i l)
  from "4.prems" have wc: "wf_at c i l"
    and wcs: "wf_children_at cs (i + node_count c) (l + int (length (eleaves c)))" by auto
  let ?d1 = "dict_update d0 (index2node_dict c)"
  have d1: "map_of ?d1 k = (if i \<le> k \<and> k < i + node_count c then Some (preorder c ! (k - i)) else map_of d0 k)"
    using "4.IH"(1) [OF wc, of k]
    by (simp add: map_of_dict_update index2node_dict_distinct map_add_def)
  note IH = "4.IH"(2) [OF wcs, of ?d1 k]
  let ?A = "i + node_count c \<le> k \<and> k < i + node_count c + sum_list (map node_count cs)"
  let ?B = "i \<le> k \<and> k < i + node_count c"
  let ?C = "i \<le> k \<and> k < i + sum_list (map node_count (c # cs))"
  let ?lhs = "map_of (fold (\<lambda>child d. dict_update d (index2node_dict child)) (c # cs) d0) k"
  have lhs: "?lhs = map_of (fold (\<lambda>child d. dict_update d (index2node_dict child)) cs ?d1) k"
    by simp
  have pre: "concat (map preorder (c # cs)) = preorder c @ concat (map preorder cs)" by simp
  consider (a) ?A | (b) ?B | (c) "\<not> ?A" "\<not> ?B" by blast
  then show ?case
  proof cases
    case a
    then have k1: "i + node_count c \<le> k" by simp
    have "\<not> k - i < length (preorder c)" "k - i - length (preorder c) = k - (i + node_count c)"
      unfolding length_preorder using k1 by linarith+
    then have n: "concat (map preorder (c # cs)) ! (k - i)
               = concat (map preorder cs) ! (k - (i + node_count c))"
      unfolding pre by (simp add: nth_append)
    have C: ?C using a by simp
    have "?lhs = Some (concat (map preorder cs) ! (k - (i + node_count c)))"
      unfolding lhs IH using a by (rule if_P)
    also have "\<dots> = (if ?C then Some (concat (map preorder (c # cs)) ! (k - i)) else map_of d0 k)"
      unfolding n using C by (rule if_P [symmetric])
    finally show ?thesis .
  next
    case b
    then have "k - i < length (preorder c)" unfolding length_preorder by linarith
    then have n: "concat (map preorder (c # cs)) ! (k - i) = preorder c ! (k - i)"
      unfolding pre by (simp add: nth_append)
    have nA: "\<not> ?A" using b by simp
    have C: ?C using b by simp
    have "?lhs = map_of ?d1 k" unfolding lhs IH using nA by (rule if_not_P)
    also have "\<dots> = Some (preorder c ! (k - i))" unfolding d1 using b by (rule if_P)
    also have "\<dots> = (if ?C then Some (concat (map preorder (c # cs)) ! (k - i)) else map_of d0 k)"
      unfolding n using C by (rule if_P [symmetric])
    finally show ?thesis .
  next
    case c
    have nC: "\<not> ?C" using c by auto
    have "?lhs = map_of ?d1 k" unfolding lhs IH using c(1) by (rule if_not_P)
    also have "\<dots> = map_of d0 k" unfolding d1 using c(2) by (rule if_not_P)
    also have "\<dots> = (if ?C then Some (concat (map preorder (c # cs)) ! (k - i)) else map_of d0 k)"
      using nC by (rule if_not_P [symmetric])
    finally show ?thesis .
  qed
qed

lemma wf_index2node:
  assumes "wf_at T i l" "i \<le> k" "k < i + node_count T"
  shows "index2node T k = Inr (preorder T ! (k - i))"
  using wf_dict_lookup(1) [OF assms(1), of k] assms
  by (cases T) (simp_all del: index2node_dict.simps)

lemma wf_subtree_indices:
  assumes "wf_at T i l"
  shows "subtree_indices T = Inr [i..<i + node_count T]"
proof -
  let ?ks = "map fst (index2node_dict T)"
  have "set ?ks = dom (map_of (index2node_dict T))" by (simp add: dom_map_of_conv_image_fst)
  also have "\<dots> = {i..<i + node_count T}"
    using wf_dict_lookup(1) [OF assms] by (auto simp: dom_def)
  finally have s: "set ?ks = {i..<i + node_count T}" .
  have "sort ?ks = sorted_list_of_set (set ?ks)"
    using index2node_dict_distinct [of T] sorted_list_of_set_sort_remdups [of ?ks]
    by (simp only: distinct_remdups_id)
  with s have "sort ?ks = [i..<i + node_count T]" by simp
  with assms show ?thesis by (cases T) (simp_all del: index2node_dict.simps)
qed

section \<open>The loops of the aligner\<close>

lemma for_loop_append:
  "for_loop (xs @ ys) f s = (case for_loop xs f s of Inl e \<Rightarrow> Inl e | Inr s' \<Rightarrow> for_loop ys f s')"
  by (induction xs arbitrary: s) (auto split: sum.splits)

lemma for_loop_map_app: "for_loop (map h xs) f s = for_loop xs (\<lambda>x. f (h x)) s"
  by (induction xs arbitrary: s) (auto split: sum.splits)

lemma for_loop_map: "for_loop (map h xs) f = for_loop xs (\<lambda>x. f (h x))"
  by (rule ext) (rule for_loop_map_app)

lemma for_loop_skip: "for_loop xs (\<lambda>x s. Inr s) s = Inr s"
  by (induction xs) auto

lemma for_loop_filter:
  "for_loop xs (\<lambda>x s. if skip x then Inr s else f x s) s = for_loop (filter (\<lambda>x. \<not> skip x) xs) f s"
  by (induction xs arbitrary: s) (auto split: sum.splits)

lemma for_loop_product:
  "for_loop xs (\<lambda>x s. for_loop ys (f x) s) s = for_loop (List.product xs ys) (\<lambda>(x, y). f x y) s"
proof (induction xs arbitrary: s)
  case Nil
  then show ?case by simp
next
  case (Cons x xs)
  show ?case
    by (simp add: for_loop_append for_loop_map Cons.IH split: sum.splits)
qed

lemma for_loop_fold:
  assumes "R s t"
    and "\<And>x s t. x \<in> set xs \<Longrightarrow> R s t \<Longrightarrow> \<exists>s'. f x s = Inr s' \<and> R s' (g x t)"
  shows "\<exists>s'. for_loop xs f s = Inr s' \<and> R s' (fold g xs t)"
  using assms
proof (induction xs arbitrary: s t)
  case Nil
  then show ?case by simp
next
  case (Cons x xs)
  from Cons.prems(2) [of x s t] Cons.prems(1)
  obtain s1 where s1: "f x s = Inr s1" "R s1 (g x t)" by auto
  have "\<exists>s'. for_loop xs f s1 = Inr s' \<and> R s' (fold g xs (g x t))"
    using s1(2) Cons.prems(2) by (intro Cons.IH) auto
  with s1(1) show ?case by simp
qed

lemma fold_max_Max:
  "fold (\<lambda>b x. max x (f b)) bs (x0 :: real) = Max (insert x0 (f ` set bs))"
proof (induction bs arbitrary: x0)
  case Nil
  then show ?case by simp
next
  case (Cons b bs)
  have "Max (insert (max x0 (f b)) (f ` set bs)) = Max (insert x0 (insert (f b) (f ` set bs)))"
    by (cases "bs = []") (auto simp: max.assoc max.commute max.left_commute)
  with Cons.IH [of "max x0 (f b)"] show ?case by simp
qed

lemma np_index_ok: "0 \<le> i \<Longrightarrow> i < int n \<Longrightarrow> np_index n i = Inr (nat i)"
  by (simp add: np_index_def)

lemma np_get_ok: "0 \<le> i \<Longrightarrow> i < int r \<Longrightarrow> 0 \<le> j \<Longrightarrow> j < int c
  \<Longrightarrow> np_get (r, c, d) i j = Inr (d (nat i, nat j))"
  by (simp add: np_get_def np_index_ok)

lemma np_set_ok: "0 \<le> i \<Longrightarrow> i < int r \<Longrightarrow> 0 \<le> j \<Longrightarrow> j < int c
  \<Longrightarrow> np_set (r, c, d) i j v = Inr (r, c, d((nat i, nat j) := v))"
  by (simp add: np_set_def np_index_ok)

lemma propose_ok:
  assumes "0 \<le> pr" "pr < int r" "0 \<le> gr" "gr < int c" "a < r" "b < c"
  shows "\<exists>tr'. propose (pr, gr) w t (int a) (int b) ((r, c, d), tr)
           = Inr ((r, c, d((nat pr, nat gr) := max (d (nat pr, nat gr)) (d (a, b) + w))), tr')"
proof -
  have g1: "np_get (r, c, d) (int a) (int b) = Inr (d (a, b))"
    using assms np_get_ok [of "int a" r "int b" c d] by simp
  have g2: "np_get (r, c, d) pr gr = Inr (d (nat pr, nat gr))" using assms by (simp add: np_get_ok)
  have s2: "\<And>v. np_set (r, c, d) pr gr v = Inr (r, c, d((nat pr, nat gr) := v))"
    using assms by (simp add: np_set_ok)
  have same: "d((nat pr, nat gr) := d (nat pr, nat gr)) = d" by simp
  show ?thesis
  proof (cases "d (a, b) + w > d (nat pr, nat gr)")
    case True
    then show ?thesis by (simp add: propose_def g1 g2 s2 max_def)
  next
    case False
    then have "max (d (nat pr, nat gr)) (d (a, b) + w) = d (nat pr, nat gr)" by (simp add: max_def)
    with False same show ?thesis by (simp add: propose_def g1 g2)
  qed
qed

lemma propose_loop:
  fixes srcs :: "(nat \<times> nat) list"
  assumes tgt: "0 \<le> pr" "pr < int r" "0 \<le> gr" "gr < int c"
    and src: "\<forall>(a, b)\<in>set srcs. a < r \<and> b < c \<and> (a, b) \<noteq> (nat pr, nat gr)"
  shows "\<exists>tr'. for_loop srcs (\<lambda>(a, b). propose (pr, gr) w t (int a) (int b)) ((r, c, d), tr)
          = Inr ((r, c, d((nat pr, nat gr) :=
                   fold (\<lambda>ab x. max x (d ab + w)) srcs (d (nat pr, nat gr)))), tr')"
  using src
proof (induction srcs arbitrary: d tr)
  case Nil
  then show ?case by simp
next
  case (Cons ab srcs)
  obtain a b where ab: "ab = (a, b)" by (cases ab)
  from Cons.prems ab have a: "a < r" "b < c" "(a, b) \<noteq> (nat pr, nat gr)" by auto
  let ?tg = "(nat pr, nat gr)"
  let ?d1 = "d(?tg := max (d ?tg) (d (a, b) + w))"
  from propose_ok [OF tgt a(1,2), of w t d tr]
  obtain tr1 where tr1: "propose (pr, gr) w t (int a) (int b) ((r, c, d), tr) = Inr ((r, c, ?d1), tr1)"
    by blast
  have src': "\<forall>(a, b)\<in>set srcs. a < r \<and> b < c \<and> (a, b) \<noteq> ?tg" using Cons.prems by simp
  from Cons.IH [OF src', of ?d1 tr1] obtain tr' where
    IH: "for_loop srcs (\<lambda>(a, b). propose (pr, gr) w t (int a) (int b)) ((r, c, ?d1), tr1)
          = Inr ((r, c, ?d1(?tg := fold (\<lambda>ab x. max x (?d1 ab + w)) srcs (?d1 ?tg))), tr')"
    by blast
  have f: "fold (\<lambda>ab x. max x (?d1 ab + w)) srcs x0 = fold (\<lambda>ab x. max x (d ab + w)) srcs x0" for x0
    using src' by (intro fold_cong) auto
  have e: "?d1(?tg := fold (\<lambda>ab x. max x (?d1 ab + w)) srcs (?d1 ?tg))
        = d(?tg := fold (\<lambda>ab x. max x (d ab + w)) (ab # srcs) (d ?tg))"
    unfolding f ab by simp
  have "for_loop (ab # srcs) (\<lambda>(a, b). propose (pr, gr) w t (int a) (int b)) ((r, c, d), tr)
        = for_loop srcs (\<lambda>(a, b). propose (pr, gr) w t (int a) (int b)) ((r, c, ?d1), tr1)"
    using tr1 by (simp add: ab)
  also note IH
  also note e
  finally show ?case by blast
qed

lemma py_range_nat: "py_range (int n) = map int [0..<n]"
  by (simp add: py_range_def)

lemma relax_cells_ok:
  assumes "1 \<le> pl" "pl \<le> pr" "pr < r" "1 \<le> gl" "gl \<le> gr" "gr < c"
  shows "\<exists>tr'. relax_cells ((r, c, d), tr) (int pl, int pr) (int gl, int gr) w t
           = Inr ((r, c, relax_edge ((pl, gl), (pr, gr), w) d), tr')"
proof -
  let ?srcs = "List.product [0..<pl] [0..<gl]"
  have loops: "relax_cells ((r, c, d), tr) (int pl, int pr) (int gl, int gr) w t
      = for_loop ?srcs (\<lambda>(a, b). propose (int pr, int gr) w t (int a) (int b)) ((r, c, d), tr)"
    using for_loop_product [of "[0..<pl]" "[0..<gl]"
             "\<lambda>a b. propose (int pr, int gr) w t (int a) (int b)" "((r, c, d), tr)"]
    by (simp add: relax_cells_def py_range_nat for_loop_map)
  have src: "\<forall>(a, b)\<in>set ?srcs. a < r \<and> b < c \<and> (a, b) \<noteq> (nat (int pr), nat (int gr))"
    using assms by auto
  from propose_loop [of "int pr" r "int gr" c ?srcs w t d tr, OF _ _ _ _ src] assms
  obtain tr' where l: "for_loop ?srcs (\<lambda>(a, b). propose (int pr, int gr) w t (int a) (int b)) ((r, c, d), tr)
          = Inr ((r, c, d((pr, gr) := fold (\<lambda>ab x. max x (d ab + w)) ?srcs (d (pr, gr)))), tr')"
    by auto
  have ne: "set ?srcs \<noteq> {}" using assms by auto
  have "fold (\<lambda>ab x. max x (d ab + w)) ?srcs (d (pr, gr))
        = Max (insert (d (pr, gr)) ((\<lambda>ab. d ab + w) ` set ?srcs))"
    by (rule fold_max_Max)
  also have "\<dots> = max (d (pr, gr)) (Max ((\<lambda>ab. d ab + w) ` set ?srcs))"
    using ne by (subst Max_insert) auto
  also have "(\<lambda>ab. d ab + w) ` set ?srcs = (\<lambda>x. x + w) ` (d ` set ?srcs)" by (simp add: image_image)
  also have "Max ((\<lambda>x. x + w) ` (d ` set ?srcs)) = Max (d ` set ?srcs) + w"
    using ne by (intro mono_Max_commute [symmetric]) (auto simp: mono_def)
  also have "set ?srcs = {..<pl} \<times> {..<gl}" by auto
  finally have "fold (\<lambda>ab x. max x (d ab + w)) ?srcs (d (pr, gr))
        = max (d (pr, gr)) (Max (d ` ({..<pl} \<times> {..<gl})) + w)" .
  moreover have "pl \<noteq> 0" "gl \<noteq> 0" using assms by auto
  ultimately show ?thesis using loops l by (simp add: relax_edge_def)
qed


lemma scan_loop:
  fixes srcs :: "(nat \<times> nat) list"
  assumes "\<forall>(a, b)\<in>set srcs. a < r \<and> b < c"
  shows "\<exists>t'. for_loop srcs (\<lambda>(a, b) best.
            (case np_get (r, c, d) (int a) (int b) of
               Inl e \<Rightarrow> Inl e
             | Inr m \<Rightarrow> if m > fst best then Inr (m, tr (int a, int b)) else Inr best)) (b0, t0)
          = Inr (fold (\<lambda>ab x. max x (d ab)) srcs b0, t')"
  using assms
proof (induction srcs arbitrary: b0 t0)
  case Nil
  then show ?case by simp
next
  case (Cons ab srcs)
  obtain a b where ab: "ab = (a, b)" by (cases ab)
  from Cons.prems ab have a: "a < r" "b < c" by auto
  have g1: "np_get (r, c, d) (int a) (int b) = Inr (d (a, b))"
    using a np_get_ok [of "int a" r "int b" c d] by simp
  have src': "\<forall>(a, b)\<in>set srcs. a < r \<and> b < c" using Cons.prems by simp
  show ?case
  proof (cases "d (a, b) > b0")
    case True
    then have m: "max b0 (d (a, b)) = d (a, b)" by (simp add: max_def)
    from Cons.IH [OF src', of "d (a, b)" "tr (int a, int b)"] True m show ?thesis
      by (simp add: ab g1)
  next
    case False
    then have m: "max b0 (d (a, b)) = b0" by (simp add: max_def)
    from Cons.IH [OF src', of b0 t0] False m show ?thesis by (simp add: ab g1)
  qed
qed

lemma scan_cells_ok:
  "\<exists>t'. scan_cells (r, c, d) tr (b0, t0) = Inr (Max (insert b0 (d ` ({..<r} \<times> {..<c}))), t')"
proof -
  let ?srcs = "List.product [0..<r] [0..<c]"
  let ?body = "\<lambda>a b best. (case np_get (r, c, d) (int a) (int b) of
               Inl e \<Rightarrow> Inl e
             | Inr m \<Rightarrow> if m > fst best then Inr (m, tr (int a, int b)) else Inr best)"
  have loops: "scan_cells (r, c, d) tr (b0, t0) = for_loop ?srcs (\<lambda>(a, b). ?body a b) (b0, t0)"
    using for_loop_product [of "[0..<r]" "[0..<c]" ?body "(b0, t0)"]
    by (simp add: scan_cells_def py_range_nat for_loop_map)
  have src: "\<forall>(a, b)\<in>set ?srcs. a < r \<and> b < c" by auto
  from scan_loop [OF src, where d = d and tr = tr and ?b0.0 = b0 and ?t0.0 = t0] obtain t' where
    "for_loop ?srcs (\<lambda>(a, b). ?body a b) (b0, t0) = Inr (fold (\<lambda>ab x. max x (d ab)) ?srcs b0, t')"
    by blast
  moreover have "fold (\<lambda>ab x. max x (d ab)) ?srcs b0 = Max (insert b0 (d ` set ?srcs))"
    by (rule fold_max_Max)
  moreover have "set ?srcs = {..<r} \<times> {..<c}" by auto
  ultimately show ?thesis using loops by simp
qed

lemma initial_table_ok: "initial_table n m = Inr (n + 1, m + 1, table0)"
  by (simp add: initial_table_def np_full_def np_set_def np_index_def table0_def)

section \<open>Subtrees of a well-formed tree\<close>

lemma wf_at_fields:
  assumes "wf_at u i l"
  shows "node_index u = i" "node_leaf_range u = (l, l + int (length (eleaves u)) - 1)"
    "is_node u" "leaf_range u = Inr (node_leaf_range u)" "index u = Inr i"
    "label u = Inr (node_label u)" "time_range u = Inr (node_time u)"
  using assms by (cases u; auto)+

lemma wf_leaves_pos:
  "wf_at u i l \<Longrightarrow> 0 < length (eleaves u)"
  "wf_children_at cs i l \<Longrightarrow> cs \<noteq> [] \<Longrightarrow> 0 < length (concat (map eleaves cs))"
proof (induction u i l and cs i l rule: wf_at_wf_children_at.induct)
  case (1 s i l)
  then show ?case by simp
next
  case (2 i' tr lr lab cs i l)
  show ?case
  proof (cases "is_preterminal (ETree i' tr lr lab cs)")
    case True
    then show ?thesis by (auto simp: is_preterminal_iff)
  next
    case False
    with "2.prems" have w: "cs \<noteq> []" "wf_children_at cs (i + 1) l" by auto
    from "2.IH" [OF w(2) w(1)] show ?thesis by simp
  qed
next
  case (3 i l)
  then show ?case by simp
next
  case (4 c cs i l)
  then show ?case by auto
qed

lemma wf_node_count_pos: "wf_at u i l \<Longrightarrow> 0 < node_count u"
  by (cases u) auto

lemma sub_ok_Cons:
  assumes "0 < k" "sub_ok ys (i + 1) l L (k - 1)"
  shows "sub_ok (x # ys) i l L k"
proof -
  from assms(1) obtain k' where k: "k = Suc k'" by (cases k) auto
  with assms(2) show ?thesis by (auto simp: sub_ok_def)
qed

lemma sub_ok_append1:
  assumes "k < length xs" "sub_ok xs i l L k" "L \<le> L'"
  shows "sub_ok (xs @ ys) i l L' k"
proof -
  from assms(2) have b: "k + node_count (xs ! k) \<le> length xs" by (simp add: sub_ok_def)
  have "(xs @ ys) ! (k + m) = xs ! (k + m)" if "m < node_count (xs ! k)" for m
    using that b by (simp add: nth_append)
  with assms show ?thesis by (auto simp: sub_ok_def nth_append)
qed

lemma sub_ok_append2:
  assumes "length xs \<le> k" "sub_ok ys (i + length xs) (l + L1) L2 (k - length xs)" "0 \<le> L1"
  shows "sub_ok (xs @ ys) i l (L1 + L2) k"
proof -
  have n: "(xs @ ys) ! k = ys ! (k - length xs)" using assms(1) by (simp add: nth_append)
  have m: "(xs @ ys) ! (k + m) = ys ! (k - length xs + m)" for m
    using assms(1) by (simp add: nth_append)
  have i: "i + length xs + (k - length xs) = i + k" using assms(1) by simp
  from assms(2) show ?thesis
    unfolding sub_ok_def n m i using assms(1,3) by (auto simp: add.assoc)
qed

lemma wf_sub_ok:
  "wf_at T i l \<Longrightarrow> k < node_count T \<Longrightarrow> sub_ok (preorder T) i l (int (length (eleaves T))) k"
  "wf_children_at cs i l \<Longrightarrow> k < sum_list (map node_count cs)
   \<Longrightarrow> sub_ok (concat (map preorder cs)) i l (int (length (concat (map eleaves cs)))) k"
proof (induction T i l and cs i l arbitrary: k and k rule: wf_at_wf_children_at.induct)
  case (1 s i l)
  then show ?case by simp
next
  case (2 i' tr lr lab cs i l)
  let ?T = "ETree i' tr lr lab cs"
  show ?case
  proof (cases "k = 0")
    case True
    have "sub_ok (preorder ?T) i l (int (length (eleaves ?T))) 0"
      unfolding sub_ok_def using "2.prems"(1)
      by (auto simp: length_preorder length_concat_preorder simp del: wf_at.simps)
    with True show ?thesis by simp
  next
    case False
    then have k0: "0 < k" by simp
    have np: "\<not> is_preterminal ?T" using "2.prems"(2) False by (auto simp: is_preterminal_iff)
    with "2.prems"(1) have w: "wf_children_at cs (i + 1) l" by auto
    have "k - 1 < sum_list (map node_count cs)" using "2.prems"(2) k0 by simp
    from "2.IH" [OF w this]
    have "sub_ok (concat (map preorder cs)) (i + 1) l (int (length (concat (map eleaves cs)))) (k - 1)" .
    from sub_ok_Cons [OF k0 this] show ?thesis by simp
  qed
next
  case (3 i l)
  then show ?case by simp
next
  case (4 c cs i l)
  from "4.prems" have wc: "wf_at c i l"
    and wcs: "wf_children_at cs (i + node_count c) (l + int (length (eleaves c)))" by auto
  show ?case
  proof (cases "k < node_count c")
    case True
    from "4.IH"(1) [OF wc True]
    have "sub_ok (preorder c) i l (int (length (eleaves c))) k" .
    from sub_ok_append1 [OF _ this, where ys = "concat (map preorder cs)"
        and L' = "int (length (concat (map eleaves (c # cs))))"] True
    show ?thesis by (simp add: length_preorder)
  next
    case False
    then have k1: "length (preorder c) \<le> k" by (simp add: length_preorder)
    have "k - node_count c < sum_list (map node_count cs)" using "4.prems"(2) False by simp
    from "4.IH"(2) [OF wcs this]
    have "sub_ok (concat (map preorder cs)) (i + length (preorder c)) (l + int (length (eleaves c)))
            (int (length (concat (map eleaves cs)))) (k - length (preorder c))"
      by (simp add: length_preorder)
    from sub_ok_append2 [OF k1 this] show ?thesis by simp
  qed
qed

section \<open>One step of the pair loops\<close>

lemma wf_nth:
  assumes w: "wf_at T i l" and k: "k < node_count T"
  defines "u \<equiv> preorder T ! k"
  shows "wf_at u (i + k) (fst (node_leaf_range u))"
    and "1 \<le> fst (local_range T u)"
    and "fst (local_range T u) \<le> snd (local_range T u)"
    and "snd (local_range T u) \<le> length (eleaves T)"
    and "int (fst (local_range T u)) = fst (node_leaf_range u) - fst (node_leaf_range T) + 1"
    and "int (snd (local_range T u)) = snd (node_leaf_range u) - fst (node_leaf_range T) + 1"
    and "k + node_count u \<le> node_count T"
    and "\<And>m. m < node_count u \<Longrightarrow> preorder u ! m = preorder T ! (k + m)"
proof -
  from wf_sub_ok(1) [OF w k] obtain l' where
    s: "wf_at u (i + k) l'" "l \<le> l'" "l' + int (length (eleaves u)) \<le> l + int (length (eleaves T))"
       "k + node_count u \<le> length (preorder T)"
       "\<forall>m<node_count u. preorder u ! m = preorder T ! (k + m)"
    unfolding sub_ok_def u_def by blast
  have lu: "node_leaf_range u = (l', l' + int (length (eleaves u)) - 1)"
    using wf_at_fields(2) [OF s(1)] .
  have lT: "node_leaf_range T = (l, l + int (length (eleaves T)) - 1)"
    using wf_at_fields(2) [OF w] .
  have "0 < length (eleaves u)" using wf_leaves_pos(1) [OF s(1)] .
  then have pos: "1 \<le> int (length (eleaves u))" by linarith
  show "wf_at u (i + k) (fst (node_leaf_range u))" using s(1) lu by simp
  show "1 \<le> fst (local_range T u)" using s(2) by (simp add: local_range_def lu lT)
  show "fst (local_range T u) \<le> snd (local_range T u)"
    unfolding local_range_def lu lT fst_conv snd_conv using s(2) pos by linarith
  show "snd (local_range T u) \<le> length (eleaves T)"
    unfolding local_range_def lu lT fst_conv snd_conv using s(2,3) pos by linarith
  show "int (fst (local_range T u)) = fst (node_leaf_range u) - fst (node_leaf_range T) + 1"
    using s(2) by (simp add: local_range_def lu lT)
  show "int (snd (local_range T u)) = snd (node_leaf_range u) - fst (node_leaf_range T) + 1"
    unfolding local_range_def lu lT fst_conv snd_conv using s(2) pos by linarith
  show "k + node_count u \<le> node_count T" using s(4) by (simp add: length_preorder)
  show "\<And>m. m < node_count u \<Longrightarrow> preorder u ! m = preorder T ! (k + m)" using s(5) by blast
qed

lemma wf_nth_nth:
  assumes w: "wf_at T i l" and k: "k < node_count T" and m: "m < node_count (preorder T ! k)"
  shows "preorder (preorder T ! k) ! m = preorder T ! (k + m)" "k + m < node_count T"
  using wf_nth(7,8) [OF w k] m by auto

lemma pair_step_ok:
  assumes wp: "wf_at P 0 lp" and wg: "wf_at G 0 lg"
    and i: "i < node_count P" and j: "j < node_count G"
    and k: "i \<le> k" "k < i + node_count (preorder P ! i)"
    and k': "j \<le> k'" "k' < j + node_count (preorder G ! j)"
    and ok: "memo_ok thr flexible P G A1"
    and rec: "\<And>A1. memo_ok thr flexible P G A1 \<Longrightarrow>
               \<exists>t A2. align A1 (preorder P ! k) (preorder G ! k') default_eps
                         = Inr ((align_weight thr flexible (preorder P ! k) (preorder G ! k'), t), A2)
                      \<and> memo_ok thr flexible P G A2 \<and> rows_kept k A1 A2"
  shows "\<exists>A2 tr'.
           pair_step (preorder P ! i) (preorder G ! j)
             (fst (node_leaf_range (preorder P ! i))) (fst (node_leaf_range (preorder G ! j)))
             k k'
             (A1, (length (eleaves (preorder P ! i)) + 1, length (eleaves (preorder G ! j)) + 1, Mp), tr)
           = Inr (A2, (length (eleaves (preorder P ! i)) + 1, length (eleaves (preorder G ! j)) + 1,
                       relax_edge (pair_edge (local_range (preorder P ! i)) (local_range (preorder G ! j))
                                     (align_weight thr flexible (preorder P ! k) (preorder G ! k'))
                                     (preorder P ! k) (preorder G ! k')) Mp), tr')
         \<and> memo_ok thr flexible P G A2 \<and> rows_kept k A1 A2"
proof -
  let ?u = "preorder P ! i" and ?v = "preorder G ! j"
  let ?u' = "preorder P ! k" and ?v' = "preorder G ! k'"
  have wu: "wf_at ?u i (fst (node_leaf_range ?u))" using wf_nth(1) [OF wp i] by simp
  have wv: "wf_at ?v j (fst (node_leaf_range ?v))" using wf_nth(1) [OF wg j] by simp
  have ku: "k - i < node_count ?u" using k by linarith
  have kv: "k' - j < node_count ?v" using k' by linarith
  have u': "preorder ?u ! (k - i) = ?u'" using wf_nth_nth(1) [OF wp i ku] k(1) by simp
  have v': "preorder ?v ! (k' - j) = ?v'" using wf_nth_nth(1) [OF wg j kv] k'(1) by simp
  have i2n_u: "index2node ?u k = Inr ?u'" using wf_index2node [OF wu k] u' by simp
  have i2n_v: "index2node ?v k' = Inr ?v'" using wf_index2node [OF wv k'] v' by simp
  note fu = wf_nth [OF wu ku, unfolded u']
  note fv = wf_nth [OF wv kv, unfolded v']
  have lr_u: "leaf_range ?u' = Inr (node_leaf_range ?u')" using wf_at_fields(4) [OF fu(1)] .
  have lr_v: "leaf_range ?v' = Inr (node_leaf_range ?v')" using wf_at_fields(4) [OF fv(1)] .
  from rec [OF ok] obtain t A2 where
    al: "align A1 ?u' ?v' default_eps = Inr ((align_weight thr flexible ?u' ?v', t), A2)"
    and ok2: "memo_ok thr flexible P G A2" and kept: "rows_kept k A1 A2" by blast
  let ?pl = "fst (local_range ?u ?u')" and ?pr = "snd (local_range ?u ?u')"
  let ?gl = "fst (local_range ?v ?v')" and ?gr = "snd (local_range ?v ?v')"
  have b: "1 \<le> ?pl" "?pl \<le> ?pr" "?pr < length (eleaves ?u) + 1"
          "1 \<le> ?gl" "?gl \<le> ?gr" "?gr < length (eleaves ?v) + 1"
    using fu(2,3,4) fv(2,3,4) by auto
  from relax_cells_ok [OF b, of Mp tr "align_weight thr flexible ?u' ?v'" t]
  obtain tr' where rc: "relax_cells ((length (eleaves ?u) + 1, length (eleaves ?v) + 1, Mp), tr)
       (int ?pl, int ?pr) (int ?gl, int ?gr) (align_weight thr flexible ?u' ?v') t
     = Inr ((length (eleaves ?u) + 1, length (eleaves ?v) + 1,
             relax_edge ((?pl, ?gl), (?pr, ?gr), align_weight thr flexible ?u' ?v') Mp), tr')"
    by blast
  have "pair_step ?u ?v (fst (node_leaf_range ?u)) (fst (node_leaf_range ?v)) k k'
          (A1, (length (eleaves ?u) + 1, length (eleaves ?v) + 1, Mp), tr)
        = Inr (A2, (length (eleaves ?u) + 1, length (eleaves ?v) + 1,
             relax_edge ((?pl, ?gl), (?pr, ?gr), align_weight thr flexible ?u' ?v') Mp), tr')"
    unfolding pair_step_def using rc
    by (simp add: i2n_u i2n_v lr_u lr_v al fu(5,6) [symmetric] fv(5,6) [symmetric])
  then show ?thesis using ok2 kept by (auto simp: pair_edge_def)
qed


lemma rows_kept_refl: "rows_kept b A A"
  by (simp add: rows_kept_def)

lemma rows_kept_trans: "rows_kept b A A1 \<Longrightarrow> rows_kept k A1 A2 \<Longrightarrow> b \<le> k \<Longrightarrow> rows_kept b A A2"
  by (simp add: rows_kept_def)

lemma pair_loop_ok:
  assumes wp: "wf_at P 0 lp" and wg: "wf_at G 0 lg"
    and i: "i < node_count P" and j: "j < node_count G"
    and ks: "\<forall>(k, k')\<in>set ks. i \<le> k \<and> k < i + node_count (preorder P ! i)
                \<and> j \<le> k' \<and> k' < j + node_count (preorder G ! j) \<and> b \<le> k"
    and ok: "memo_ok thr flexible P G A"
    and rec: "\<And>k k' A1. (k, k') \<in> set ks \<Longrightarrow> memo_ok thr flexible P G A1 \<Longrightarrow>
               \<exists>t A2. align A1 (preorder P ! k) (preorder G ! k') default_eps
                         = Inr ((align_weight thr flexible (preorder P ! k) (preorder G ! k'), t), A2)
                      \<and> memo_ok thr flexible P G A2 \<and> rows_kept k A1 A2"
  shows "\<exists>A' tr'.
           for_loop ks (\<lambda>(k, k'). pair_step (preorder P ! i) (preorder G ! j)
                          (fst (node_leaf_range (preorder P ! i))) (fst (node_leaf_range (preorder G ! j))) k k')
             (A, (length (eleaves (preorder P ! i)) + 1, length (eleaves (preorder G ! j)) + 1, Mp), tr)
           = Inr (A', (length (eleaves (preorder P ! i)) + 1, length (eleaves (preorder G ! j)) + 1,
                       fold relax_edge (map (index_edge thr flexible P G i j) ks) Mp), tr')
         \<and> memo_ok thr flexible P G A' \<and> rows_kept b A A'"
  using ks ok rec
proof (induction ks arbitrary: A Mp tr)
  case Nil
  then show ?case by (simp add: rows_kept_refl)
next
  case (Cons kk ks)
  obtain k k' where kk: "kk = (k, k')" by (cases kk)
  from Cons.prems(1) kk have kb: "i \<le> k" "k < i + node_count (preorder P ! i)"
    "j \<le> k'" "k' < j + node_count (preorder G ! j)" "b \<le> k" by auto
  have rec1: "\<And>A1. memo_ok thr flexible P G A1 \<Longrightarrow>
               \<exists>t A2. align A1 (preorder P ! k) (preorder G ! k') default_eps
                         = Inr ((align_weight thr flexible (preorder P ! k) (preorder G ! k'), t), A2)
                      \<and> memo_ok thr flexible P G A2 \<and> rows_kept k A1 A2"
    using Cons.prems(3) [of k k'] kk by simp
  from pair_step_ok [OF wp wg i j kb(1,2,3,4) Cons.prems(2) rec1, of Mp tr]
  obtain A2 tr2 where st: "pair_step (preorder P ! i) (preorder G ! j)
             (fst (node_leaf_range (preorder P ! i))) (fst (node_leaf_range (preorder G ! j)))
             k k'
             (A, (length (eleaves (preorder P ! i)) + 1, length (eleaves (preorder G ! j)) + 1, Mp), tr)
           = Inr (A2, (length (eleaves (preorder P ! i)) + 1, length (eleaves (preorder G ! j)) + 1,
                       relax_edge (index_edge thr flexible P G i j kk) Mp), tr2)"
     and ok2: "memo_ok thr flexible P G A2" and kept2: "rows_kept k A A2"
    unfolding index_edge_def kk fst_conv snd_conv by blast
  have ks': "\<forall>(k, k')\<in>set ks. i \<le> k \<and> k < i + node_count (preorder P ! i)
                \<and> j \<le> k' \<and> k' < j + node_count (preorder G ! j) \<and> b \<le> k"
    using Cons.prems(1) by simp
  have rec': "\<And>k k' A1. (k, k') \<in> set ks \<Longrightarrow> memo_ok thr flexible P G A1 \<Longrightarrow>
               \<exists>t A2. align A1 (preorder P ! k) (preorder G ! k') default_eps
                         = Inr ((align_weight thr flexible (preorder P ! k) (preorder G ! k'), t), A2)
                      \<and> memo_ok thr flexible P G A2 \<and> rows_kept k A1 A2"
    using Cons.prems(3) by simp
  from Cons.IH [OF ks' ok2 rec', of "relax_edge (index_edge thr flexible P G i j kk) Mp" tr2]
  obtain A' tr' where l: "for_loop ks (\<lambda>(k, k'). pair_step (preorder P ! i) (preorder G ! j)
                          (fst (node_leaf_range (preorder P ! i))) (fst (node_leaf_range (preorder G ! j))) k k')
             (A2, (length (eleaves (preorder P ! i)) + 1, length (eleaves (preorder G ! j)) + 1,
                   relax_edge (index_edge thr flexible P G i j kk) Mp), tr2)
           = Inr (A', (length (eleaves (preorder P ! i)) + 1, length (eleaves (preorder G ! j)) + 1,
                       fold relax_edge (map (index_edge thr flexible P G i j) ks)
                         (relax_edge (index_edge thr flexible P G i j kk) Mp)), tr')"
    and ok': "memo_ok thr flexible P G A'" and kept': "rows_kept b A2 A'"
    by blast
  have "rows_kept b A A'"
    using kept2 kept' kb(5) by (simp add: rows_kept_def)
  with st l ok' show ?case by (simp add: kk)
qed

section \<open>From index loops to edge lists\<close>

lemma for_loop_product_skip:
  "for_loop xs (\<lambda>x s. for_loop ys (\<lambda>y s. if skip x y then Inr s else f x y s) s) s0
   = for_loop (filter (\<lambda>(x, y). \<not> skip x y) (List.product xs ys)) (\<lambda>(x, y). f x y) s0"
proof -
  have "for_loop xs (\<lambda>x s. for_loop ys (\<lambda>y s. if skip x y then Inr s else f x y s) s) s0
        = for_loop (List.product xs ys) (\<lambda>(x, y) s. if skip x y then Inr s else f x y s) s0"
    by (rule for_loop_product)
  also have "(\<lambda>(x, y) s. if skip x y then Inr s else f x y s)
             = (\<lambda>xy s. if (case xy of (x, y) \<Rightarrow> skip x y) then Inr s else (case xy of (x, y) \<Rightarrow> f x y) s)"
    by (auto simp: fun_eq_iff)
  also have "for_loop (List.product xs ys) \<dots> s0
             = for_loop (filter (\<lambda>xy. \<not> (case xy of (x, y) \<Rightarrow> skip x y)) (List.product xs ys))
                 (\<lambda>(x, y). f x y) s0"
    by (rule for_loop_filter)
  also have "(\<lambda>xy. \<not> (case xy of (x, y) \<Rightarrow> skip x y)) = (\<lambda>(x, y). \<not> skip x y)"
    by (auto simp: fun_eq_iff)
  finally show ?thesis .
qed

lemma for_loop_skip_outer:
  "(if sk then Inr s else for_loop ys (\<lambda>y s. if q y then Inr s else f y s) s)
   = for_loop ys (\<lambda>y s. if sk \<or> q y then Inr s else f y s) s"
  by (cases sk) (simp_all add: for_loop_skip)

lemma fold_product:
  "fold (\<lambda>x M. fold (f x) ys M) xs M = fold (\<lambda>(x, y). f x y) (List.product xs ys) M"
  by (induction xs arbitrary: M) (simp_all add: fold_map comp_def)

lemma filter_product:
  "filter (\<lambda>(x, y). p x \<and> q y) (List.product xs ys) = List.product (filter p xs) (filter q ys)"
  by (induction xs) (simp_all add: filter_map comp_def)

lemma product_map:
  "List.product (map f xs) (map g ys) = map (\<lambda>(x, y). (f x, g y)) (List.product xs ys)"
  by (induction xs) (simp_all add: comp_def)

lemma filter_upt_first: "0 < n \<Longrightarrow> filter (\<lambda>k. k \<noteq> i) [i..<i + n] = [Suc i..<i + n]"
proof -
  assume "0 < n"
  then have "[i..<i + n] = i # [Suc i..<i + n]" by (simp add: upt_conv_Cons)
  moreover have "filter (\<lambda>k. k \<noteq> i) [Suc i..<i + n] = [Suc i..<i + n]"
    by (rule filter_True) simp
  ultimately show ?thesis by simp
qed

lemma wf_preorder_slice:
  assumes w: "wf_at T i l" and k: "k < node_count T"
  shows "preorder (preorder T ! k) = map (\<lambda>m. preorder T ! m) [k..<k + node_count (preorder T ! k)]"
proof (rule nth_equalityI)
  show "length (preorder (preorder T ! k))
        = length (map (\<lambda>m. preorder T ! m) [k..<k + node_count (preorder T ! k)])"
    by (simp add: length_preorder)
next
  fix m assume "m < length (preorder (preorder T ! k))"
  then have m: "m < node_count (preorder T ! k)" by (simp add: length_preorder)
  with wf_nth_nth(1) [OF w k m]
  show "preorder (preorder T ! k) ! m
        = map (\<lambda>m. preorder T ! m) [k..<k + node_count (preorder T ! k)] ! m"
    by simp
qed

lemma wf_preorder_tl:
  assumes w: "wf_at T i l" and k: "k < node_count T"
  shows "tl (preorder (preorder T ! k))
         = map (\<lambda>m. preorder T ! m) [Suc k..<k + node_count (preorder T ! k)]"
proof -
  have "0 < node_count (preorder T ! k)" using wf_node_count_pos [OF wf_nth(1) [OF w k]] .
  then have "[k..<k + node_count (preorder T ! k)] = k # [Suc k..<k + node_count (preorder T ! k)]"
    by (simp add: upt_conv_Cons)
  then show ?thesis using wf_preorder_slice [OF w k] by simp
qed

lemma align_weight_edges:
  "align_weight thr flexible u v =
     (let iou = iou_entry thr u v in
      if rejects flexible iou u v then 0
      else if is_preterminal u \<or> is_preterminal v then iou
      else iou + best_cell (length (eleaves u)) (length (eleaves v))
                   (fold relax_edge (align_edges thr flexible u v) table0))"
proof -
  have "fold (\<lambda>u' M. fold (\<lambda>v' M.
                      relax_edge (pair_edge (local_range u) (local_range v)
                                   (align_weight thr flexible u' v') u' v') M)
                    (tl (preorder v)) M)
                (tl (preorder u)) table0
        = fold relax_edge (align_edges thr flexible u v) table0"
    unfolding align_edges_def fold_map
    using fold_product [of "\<lambda>u' v' M. relax_edge (pair_edge (local_range u) (local_range v)
                                   (align_weight thr flexible u' v') u' v') M"
                            "tl (preorder v)" "tl (preorder u)" table0]
    by (simp add: comp_def case_prod_unfold)
  then have e: "fold relax_edge (align_edges thr flexible u v) table0
      = fold (\<lambda>u' M. fold (\<lambda>v' M.
                      relax_edge (pair_edge (local_range u) (local_range v)
                                   (align_weight thr flexible u' v') u' v') M)
                    (tl (preorder v)) M)
                (tl (preorder u)) table0" by (rule sym)
  show ?thesis unfolding e by (rule align_weight.simps)
qed

lemma index_edges_align:
  assumes wp: "wf_at P 0 lp" and wg: "wf_at G 0 lg"
    and i: "i < node_count P" and j: "j < node_count G"
  shows "map (index_edge thr flexible P G i j)
           (filter (\<lambda>(k, k'). \<not> (k = i \<or> k' = j))
              (List.product [i..<i + node_count (preorder P ! i)] [j..<j + node_count (preorder G ! j)]))
         = align_edges thr flexible (preorder P ! i) (preorder G ! j)"
proof -
  let ?nu = "node_count (preorder P ! i)" and ?nv = "node_count (preorder G ! j)"
  have pu: "0 < ?nu" using wf_node_count_pos [OF wf_nth(1) [OF wp i]] .
  have pv: "0 < ?nv" using wf_node_count_pos [OF wf_nth(1) [OF wg j]] .
  have "filter (\<lambda>(k, k'). \<not> (k = i \<or> k' = j)) (List.product [i..<i + ?nu] [j..<j + ?nv])
        = filter (\<lambda>(k, k'). k \<noteq> i \<and> k' \<noteq> j) (List.product [i..<i + ?nu] [j..<j + ?nv])"
    by (rule filter_cong) auto
  also have "\<dots> = List.product [Suc i..<i + ?nu] [Suc j..<j + ?nv]"
    by (simp add: filter_product filter_upt_first [OF pu] filter_upt_first [OF pv])
  finally have f: "filter (\<lambda>(k, k'). \<not> (k = i \<or> k' = j)) (List.product [i..<i + ?nu] [j..<j + ?nv])
        = List.product [Suc i..<i + ?nu] [Suc j..<j + ?nv]" .
  show ?thesis
    unfolding f align_edges_def wf_preorder_tl [OF wp i] wf_preorder_tl [OF wg j] product_map
    by (simp add: index_edge_def case_prod_unfold comp_def)
qed

section \<open>The memoised alignment computes the alignment weight\<close>

lemma align_nodes:
  assumes "is_node u" "is_node v"
  shows "align self u v eps =
     (case np_get (max_matching_weights self) (int (node_index u)) (int (node_index v)) of
        Inl e \<Rightarrow> Inl e
      | Inr memo \<Rightarrow>
     if memo \<ge> 0 then Inr ((memo, trace self (node_index u, node_index v)), self)
     else
     (case np_get (span_ious self) (int (node_index u)) (int (node_index v)) of
        Inl e \<Rightarrow> Inl e
      | Inr iou \<Rightarrow>
     if eps_eq iou 0 eps
        \<or> (\<not> is_preterminal u \<and> \<not> is_preterminal v \<and> node_label u \<noteq> node_label v)
        \<or> (\<not> flexible_terminal_alignment self \<and> node_label u \<noteq> node_label v)
     then
       (case np_set (max_matching_weights self) (int (node_index u)) (int (node_index v)) 0 of
          Inl e \<Rightarrow> Inl e
        | Inr mmw \<Rightarrow>
            Inr ((0, {}),
                 self\<lparr>max_matching_weights := mmw,
                      trace := (trace self)((node_index u, node_index v) := {})\<rparr>))
     else if is_preterminal u \<or> is_preterminal v
     then
       (case np_set (max_matching_weights self) (int (node_index u)) (int (node_index v)) iou of
          Inl e \<Rightarrow> Inl e
        | Inr mmw \<Rightarrow>
            Inr ((iou, {(node_index u, node_index v)}),
                 self\<lparr>max_matching_weights := mmw,
                      trace := (trace self)((node_index u, node_index v) :=
                                 {(node_index u, node_index v)})\<rparr>))
     else
     (case initial_table (length (eleaves u)) (length (eleaves v)) of
        Inl e \<Rightarrow> Inl e
      | Inr M0 \<Rightarrow>
     (case subtree_indices u of
        Inl e \<Rightarrow> Inl e
      | Inr p_indices \<Rightarrow>
     (case for_loop p_indices (\<lambda>pnode_subtree_index st.
             if pnode_subtree_index = node_index u then Inr st
             else
             (case subtree_indices v of
                Inl e \<Rightarrow> Inl e
              | Inr g_indices \<Rightarrow>
             for_loop g_indices (\<lambda>gnode_subtree_index st.
               if gnode_subtree_index = node_index v then Inr st
               else pair_step u v (fst (node_leaf_range u)) (fst (node_leaf_range v))
                      pnode_subtree_index gnode_subtree_index st)
               st))
             (self, M0, \<lambda>k. {}) of
        Inl e \<Rightarrow> Inl e
      | Inr (self1, M, tr) \<Rightarrow>
     (case np_get (max_matching_weights self1) (int (node_index u)) (int (node_index v)) of
        Inl e \<Rightarrow> Inl e
      | Inr current \<Rightarrow>
     (case scan_cells M tr (current, trace self1 (node_index u, node_index v)) of
        Inl e \<Rightarrow> Inl e
      | Inr (best, best_trace) \<Rightarrow>
     (case np_set (max_matching_weights self1) (int (node_index u)) (int (node_index v)) (best + iou) of
        Inl e \<Rightarrow> Inl e
      | Inr mmw \<Rightarrow>
          Inr ((best + iou, insert (node_index u, node_index v) best_trace),
               self1\<lparr>max_matching_weights := mmw,
                     trace := (trace self1)((node_index u, node_index v) :=
                                insert (node_index u, node_index v) best_trace)\<rparr>)))))))))"
proof -
  from assms obtain iu tru lru lu csu iv trv lrv lv csv where
    uv: "u = ETree iu tru lru lu csu" "v = ETree iv trv lrv lv csv"
    by (cases u; cases v) auto
  show ?thesis
    unfolding uv pair_step_def node_index.simps node_label.simps node_leaf_range.simps
    by (rule align.simps(3))
qed


lemma relax_edge_ge: "M c \<le> relax_edge e M c"
  by (cases e) (auto simp: relax_edge_def)

lemma fold_relax_ge: "M c \<le> fold relax_edge es M c"
proof (induction es arbitrary: M)
  case Nil
  then show ?case by simp
next
  case (Cons e es)
  have "M c \<le> relax_edge e M c" by (rule relax_edge_ge)
  also have "\<dots> \<le> fold relax_edge es (relax_edge e M) c" by (rule Cons.IH)
  finally show ?case by simp
qed

lemma best_cell_ge0:
  assumes "0 \<le> M (0, 0)"
  shows "0 \<le> best_cell n m M"
proof -
  have "M (0, 0) \<le> Max (M ` ({..n} \<times> {..m}))" by (rule Max_ge) auto
  with assms show ?thesis unfolding best_cell_def by linarith
qed

lemma scan_best_cell:
  assumes "cur < 0" "0 \<le> M (0, 0)"
  shows "Max (insert cur (M ` ({..<n + 1} \<times> {..<m + 1}))) = best_cell n m M"
proof -
  have e: "{..<n + 1} = {..n}" "{..<m + 1} = {..m}" by auto
  have ne: "M ` ({..n} \<times> {..m}) \<noteq> {}" by auto
  have "Max (insert cur (M ` ({..n} \<times> {..m}))) = max cur (Max (M ` ({..n} \<times> {..m})))"
    using ne by (subst Max_insert) auto
  also have "\<dots> = Max (M ` ({..n} \<times> {..m}))"
    using best_cell_ge0 [of M n m] assms by (simp add: best_cell_def max_def)
  finally show ?thesis unfolding e by (simp add: best_cell_def)
qed

lemma memo_store:
  assumes ok: "memo_ok thr flexible P G A"
    and m: "max_matching_weights A = (node_count P, node_count G, m)"
    and i: "i < node_count P" and j: "j < node_count G"
    and w: "w = align_weight thr flexible (preorder P ! i) (preorder G ! j)"
    and t: "simple_trace thr flexible (preorder P ! i) (preorder G ! j) t"
  shows "memo_ok thr flexible P G
           (A\<lparr>max_matching_weights := (node_count P, node_count G, m((i, j) := w)),
              trace := (trace A)((i, j) := t)\<rparr>)"
    and "rows_kept i A
           (A\<lparr>max_matching_weights := (node_count P, node_count G, m((i, j) := w)),
              trace := (trace A)((i, j) := t)\<rparr>)"
proof -
  from ok m have mp: "\<forall>i<node_count P. \<forall>j<node_count G.
                  m (i, j) < 0
                  \<or> (m (i, j) = align_weight thr flexible (preorder P ! i) (preorder G ! j)
                      \<and> simple_trace thr flexible (preorder P ! i) (preorder G ! j) (trace A (i, j)))"
    by (auto simp: memo_ok_def)
  show "memo_ok thr flexible P G
           (A\<lparr>max_matching_weights := (node_count P, node_count G, m((i, j) := w)),
              trace := (trace A)((i, j) := t)\<rparr>)"
    using ok mp w t unfolding memo_ok_def by auto
  show "rows_kept i A
           (A\<lparr>max_matching_weights := (node_count P, node_count G, m((i, j) := w)),
              trace := (trace A)((i, j) := t)\<rparr>)"
    using m by (simp add: rows_kept_def)
qed


lemma table0_origin: "table0 (0, 0) = 0"
  by (simp add: table0_def)

theorem align_refines:
  assumes wp: "wf_at P 0 lp" and wg: "wf_at G 0 lg"
  shows "memo_ok thr flexible P G A \<Longrightarrow> i < node_count P \<Longrightarrow> j < node_count G \<Longrightarrow>
         \<exists>t A'. align A (preorder P ! i) (preorder G ! j) default_eps
                   = Inr ((align_weight thr flexible (preorder P ! i) (preorder G ! j), t), A')
                \<and> memo_ok thr flexible P G A' \<and> rows_kept i A A'
                \<and> simple_trace thr flexible (preorder P ! i) (preorder G ! j) t"
proof (induction "size (preorder P ! i)" arbitrary: i j A rule: less_induct)
  case less
  note ok = less.prems(1) and i = less.prems(2) and j = less.prems(3)
  let ?u = "preorder P ! i" and ?v = "preorder G ! j"
  let ?np = "node_count P" and ?ng = "node_count G"
  let ?W = "align_weight thr flexible ?u ?v"
  let ?iou = "iou_entry thr ?u ?v"
  have wu: "wf_at ?u i (fst (node_leaf_range ?u))" using wf_nth(1) [OF wp i] by simp
  have wv: "wf_at ?v j (fst (node_leaf_range ?v))" using wf_nth(1) [OF wg j] by simp
  have iu: "node_index ?u = i" and nu: "is_node ?u" using wf_at_fields(1,3) [OF wu] by auto
  have iv: "node_index ?v = j" and nv: "is_node ?v" using wf_at_fields(1,3) [OF wv] by auto
  from ok obtain d m where
    sp: "span_ious A = (?np, ?ng, d)"
    and dp: "\<forall>i<?np. \<forall>j<?ng. d (i, j) = iou_entry thr (preorder P ! i) (preorder G ! j)"
    and mm: "max_matching_weights A = (?np, ?ng, m)"
    and mp: "\<forall>i<?np. \<forall>j<?ng. m (i, j) < 0
               \<or> (m (i, j) = align_weight thr flexible (preorder P ! i) (preorder G ! j)
                   \<and> simple_trace thr flexible (preorder P ! i) (preorder G ! j) (trace A (i, j)))"
    and fl: "flexible_terminal_alignment A = flexible"
    unfolding memo_ok_def by blast
  have gm: "np_get (max_matching_weights A) (int i) (int j) = Inr (m (i, j))"
    unfolding mm using np_get_ok [of "int i" ?np "int j" ?ng m] i j by simp
  have gd: "np_get (span_ious A) (int i) (int j) = Inr ?iou"
    unfolding sp using np_get_ok [of "int i" ?np "int j" ?ng d] i j dp by simp
  have sm: "\<And>w. np_set (max_matching_weights A) (int i) (int j) w
                 = Inr (?np, ?ng, m((i, j) := w))"
    unfolding mm using np_set_ok [of "int i" ?np "int j" ?ng m] i j by simp
  have rj: "(eps_eq ?iou 0 default_eps
        \<or> (\<not> is_preterminal ?u \<and> \<not> is_preterminal ?v \<and> node_label ?u \<noteq> node_label ?v)
        \<or> (\<not> flexible_terminal_alignment A \<and> node_label ?u \<noteq> node_label ?v))
        = rejects flexible ?iou ?u ?v"
    by (simp add: rejects_def fl)
  note unfold = align_nodes [OF nu nv, of A default_eps, unfolded iu iv gm gd sum.case rj]
  show ?case
  proof (cases "m (i, j) \<ge> 0")
    case True
    from mp i j have "m (i, j) < 0 \<or> (m (i, j) = ?W \<and> simple_trace thr flexible ?u ?v (trace A (i, j)))"
      by blast
    with True have "m (i, j) = ?W" "simple_trace thr flexible ?u ?v (trace A (i, j))" by auto
    moreover have "align A ?u ?v default_eps = Inr ((m (i, j), trace A (i, j)), A)"
      using True by (simp add: unfold)
    ultimately show ?thesis using ok by (auto simp: rows_kept_refl)
  next
    case False
    show ?thesis
    proof (cases "rejects flexible ?iou ?u ?v")
      case True
      have W: "?W = 0" using True by (subst align_weight_edges) simp
      have st: "simple_trace thr flexible ?u ?v {}" using True by (simp add: simple_trace_def)
      have "align A ?u ?v default_eps
            = Inr ((0, {}), A\<lparr>max_matching_weights := (?np, ?ng, m((i, j) := 0)),
                              trace := (trace A)((i, j) := {})\<rparr>)"
        using False True by (simp add: unfold sm)
      with memo_store [OF ok mm i j W [symmetric] st] W st show ?thesis by auto
    next
      case nrej: False
      show ?thesis
      proof (cases "is_preterminal ?u \<or> is_preterminal ?v")
        case True
        have W: "?W = ?iou" using True nrej by (subst align_weight_edges) (simp add: Let_def)
        have st: "simple_trace thr flexible ?u ?v {(i, j)}"
          using True nrej by (simp add: simple_trace_def iu iv)
        have "align A ?u ?v default_eps
              = Inr ((?iou, {(i, j)}), A\<lparr>max_matching_weights := (?np, ?ng, m((i, j) := ?iou)),
                                trace := (trace A)((i, j) := {(i, j)})\<rparr>)"
          using False True nrej by (simp add: unfold sm)
        with memo_store [OF ok mm i j W [symmetric] st] W st show ?thesis by auto
      next
        case npre: False
        let ?nu = "node_count ?u" and ?nv = "node_count ?v"
        let ?nlu = "length (eleaves ?u)" and ?nlv = "length (eleaves ?v)"
        let ?ks = "filter (\<lambda>(k, k'). \<not> (k = i \<or> k' = j)) (List.product [i..<i + ?nu] [j..<j + ?nv])"
        let ?step = "\<lambda>(k, k'). pair_step ?u ?v (fst (node_leaf_range ?u)) (fst (node_leaf_range ?v)) k k'"
        let ?Mp = "fold relax_edge (align_edges thr flexible ?u ?v) table0"
        have si_u: "subtree_indices ?u = Inr [i..<i + ?nu]" by (rule wf_subtree_indices [OF wu])
        have si_v: "subtree_indices ?v = Inr [j..<j + ?nv]" by (rule wf_subtree_indices [OF wv])
        have bu: "i + ?nu \<le> ?np" using wf_nth(7) [OF wp i] by simp
        have bv: "j + ?nv \<le> ?ng" using wf_nth(7) [OF wg j] by simp
        have loops: "for_loop [i..<i + ?nu] (\<lambda>k st.
             if k = i then Inr st
             else
             (case subtree_indices ?v of
                Inl e \<Rightarrow> Inl e
              | Inr g_indices \<Rightarrow>
             for_loop g_indices (\<lambda>k' st.
               if k' = j then Inr st
               else pair_step ?u ?v (fst (node_leaf_range ?u)) (fst (node_leaf_range ?v)) k k' st)
               st)) s0
           = for_loop ?ks ?step s0" for s0
          unfolding si_v sum.case for_loop_skip_outer
          by (rule for_loop_product_skip)
        have ksb: "\<forall>(k, k')\<in>set ?ks. i \<le> k \<and> k < i + ?nu \<and> j \<le> k' \<and> k' < j + ?nv \<and> Suc i \<le> k"
          by auto
        have rec: "\<exists>t A2. align A1 (preorder P ! k) (preorder G ! k') default_eps
                         = Inr ((align_weight thr flexible (preorder P ! k) (preorder G ! k'), t), A2)
                      \<and> memo_ok thr flexible P G A2 \<and> rows_kept k A1 A2"
          if kk: "(k, k') \<in> set ?ks" and ok1: "memo_ok thr flexible P G A1" for k k' A1
        proof -
          from kk have kb: "i < k" "k < i + ?nu" "j < k'" "k' < j + ?nv" by auto
          have kP: "k < ?np" and kG: "k' < ?ng" using kb bu bv by auto
          have "k - i < ?nu" "0 < k - i" using kb by auto
          then have "preorder ?u ! (k - i) \<in> set (tl (preorder ?u))"
            by (cases "preorder ?u") (auto simp: length_preorder [symmetric] nth_Cons split: nat.splits)
          moreover have "preorder ?u ! (k - i) = preorder P ! k"
            using wf_nth_nth(1) [OF wp i \<open>k - i < ?nu\<close>] kb(1) by simp
          ultimately have "size (preorder P ! k) < size ?u" using preorder_tl_size by metis
          from less.hyps [OF this ok1 kP kG] show ?thesis by blast
        qed
        from pair_loop_ok [OF wp wg i j ksb ok rec, of table0 "\<lambda>k. {}"]
        obtain A1 tr1 where
          l1: "for_loop ?ks ?step (A, (?nlu + 1, ?nlv + 1, table0), \<lambda>k. {})
               = Inr (A1, (?nlu + 1, ?nlv + 1,
                           fold relax_edge (map (index_edge thr flexible P G i j) ?ks) table0), tr1)"
          and ok1: "memo_ok thr flexible P G A1" and kept1: "rows_kept (Suc i) A A1"
          by blast
        have Mp: "fold relax_edge (map (index_edge thr flexible P G i j) ?ks) table0 = ?Mp"
          unfolding index_edges_align [OF wp wg i j] ..
        from ok1 obtain m1 where mm1: "max_matching_weights A1 = (?np, ?ng, m1)"
          unfolding memo_ok_def by blast
        have m1ij: "m1 (i, j) = m (i, j)" using kept1 mm mm1 by (simp add: rows_kept_def)
        have gm1: "np_get (max_matching_weights A1) (int i) (int j) = Inr (m (i, j))"
          unfolding mm1 using np_get_ok [of "int i" ?np "int j" ?ng m1] i j m1ij by simp
        have sm1: "\<And>w. np_set (max_matching_weights A1) (int i) (int j) w
                 = Inr (?np, ?ng, m1((i, j) := w))"
          unfolding mm1 using np_set_ok [of "int i" ?np "int j" ?ng m1] i j by simp
        have o: "0 \<le> ?Mp (0, 0)" using fold_relax_ge [of table0 "(0, 0)"] by (simp add: table0_origin)
        from scan_cells_ok [of "?nlu + 1" "?nlv + 1" ?Mp tr1 "m (i, j)" "trace A1 (i, j)"]
        obtain bt where sc: "scan_cells (?nlu + 1, ?nlv + 1, ?Mp) tr1 (m (i, j), trace A1 (i, j))
              = Inr (best_cell ?nlu ?nlv ?Mp, bt)"
          using scan_best_cell [of "m (i, j)" ?Mp ?nlu ?nlv] False o by auto
        have W: "?W = best_cell ?nlu ?nlv ?Mp + ?iou"
          using npre nrej by (subst align_weight_edges) (simp add: Let_def)
        have st: "simple_trace thr flexible ?u ?v (insert (i, j) bt)"
          using npre nrej by (simp add: simple_trace_def)
        have "align A ?u ?v default_eps
              = Inr ((best_cell ?nlu ?nlv ?Mp + ?iou, insert (i, j) bt),
                     A1\<lparr>max_matching_weights := (?np, ?ng, m1((i, j) := best_cell ?nlu ?nlv ?Mp + ?iou)),
                        trace := (trace A1)((i, j) := insert (i, j) bt)\<rparr>)"
          by (simp only: unfold False nrej npre if_False initial_table_ok sum.case si_u loops
                l1 [unfolded Mp] prod.case gm1 sc sm1)
        moreover note memo_store [OF ok1 mm1 i j W [symmetric] st]
        moreover have "rows_kept i A A1" using kept1 by (simp add: rows_kept_def)
        ultimately show ?thesis using W st by (auto intro: rows_kept_trans)
      qed
    qed
  qed
qed

section \<open>The score computed by the aligner\<close>

lemma wf_root: "wf_at T i l \<Longrightarrow> preorder T ! 0 = T"
  by (cases T) auto

lemma fold_fun_upd:
  "fold (\<lambda>ij d. d(ij := f ij)) ks d ij = (if ij \<in> set ks then f ij else d ij)"
  by (induction ks arbitrary: d) auto

lemma fill_loop:
  fixes ks :: "(nat \<times> nat) list"
  assumes "\<forall>(a, b)\<in>set ks. a < r \<and> b < c"
  shows "for_loop ks (\<lambda>(a, b) arr. np_set arr (int a) (int b) (f (a, b))) (r, c, d)
         = Inr (r, c, fold (\<lambda>ij d. d(ij := f ij)) ks d)"
  using assms
proof (induction ks arbitrary: d)
  case Nil
  then show ?case by simp
next
  case (Cons ab ks)
  obtain a b where ab: "ab = (a, b)" by (cases ab)
  with Cons.prems have "a < r" "b < c" by auto
  then have st: "np_set (r, c, d) (int a) (int b) (f (a, b)) = Inr (r, c, d((a, b) := f (a, b)))"
    using np_set_ok [of "int a" r "int b" c d] by simp
  have rest: "\<forall>(a, b)\<in>set ks. a < r \<and> b < c" using Cons.prems by simp
  have "for_loop (ab # ks) (\<lambda>(a, b) arr. np_set arr (int a) (int b) (f (a, b))) (r, c, d)
        = for_loop ks (\<lambda>(a, b) arr. np_set arr (int a) (int b) (f (a, b))) (r, c, d((a, b) := f (a, b)))"
    by (simp add: ab st)
  also have "\<dots> = Inr (r, c, fold (\<lambda>ij d. d(ij := f ij)) ks (d((a, b) := f (a, b))))"
    by (rule Cons.IH [OF rest])
  also have "fold (\<lambda>ij d. d(ij := f ij)) ks (d((a, b) := f (a, b)))
             = fold (\<lambda>ij d. d(ij := f ij)) (ab # ks) d"
    unfolding ab by (simp only: fold_Cons comp_apply)
  finally show ?case .
qed

lemma TreeAligner_init_ok:
  assumes wp: "wf_at P 0 lp" and wg: "wf_at G 0 lg"
  shows "\<exists>A. TreeAligner_init P G thr flexible = Inr A \<and> memo_ok thr flexible P G A"
proof -
  let ?np = "node_count P" and ?ng = "node_count G"
  let ?ks = "List.product [0..<?np] [0..<?ng]"
  let ?f = "\<lambda>ij. span_iou (node_time (preorder P ! fst ij)) (node_time (preorder G ! snd ij)) default_eps"
  let ?body = "\<lambda>i j a. (case index2node P i of
                  Inl e \<Rightarrow> Inl e
                | Inr pn \<Rightarrow>
               (case time_range pn of
                  Inl e \<Rightarrow> Inl e
                | Inr prange \<Rightarrow>
               (case index2node G j of
                  Inl e \<Rightarrow> Inl e
                | Inr gn \<Rightarrow>
               (case time_range gn of
                  Inl e \<Rightarrow> Inl e
                | Inr grange \<Rightarrow>
                    np_set a (int i) (int j) (span_iou prange grange default_eps)))))"
  have nP: "n_nodes P = Inr ?np" using wf_n_nodes(1) [OF wp] by simp
  have nG: "n_nodes G = Inr ?ng" using wf_n_nodes(1) [OF wg] by simp
  have body: "?body i j a = np_set a (int i) (int j) (?f (i, j))" if "(i, j) \<in> set ?ks" for i j a
  proof -
    from that have ij: "i < ?np" "j < ?ng" by auto
    have "index2node P i = Inr (preorder P ! i)" using wf_index2node [OF wp, of i] ij by simp
    moreover have "index2node G j = Inr (preorder G ! j)" using wf_index2node [OF wg, of j] ij by simp
    moreover have "time_range (preorder P ! i) = Inr (node_time (preorder P ! i))"
      using wf_at_fields(7) [OF wf_nth(1) [OF wp ij(1)]] .
    moreover have "time_range (preorder G ! j) = Inr (node_time (preorder G ! j))"
      using wf_at_fields(7) [OF wf_nth(1) [OF wg ij(2)]] .
    ultimately show ?thesis by simp
  qed
  have "for_loop [0..<?np] (\<lambda>i a. for_loop [0..<?ng] (\<lambda>j a. ?body i j a) a) (np_full ?np ?ng 0)
        = for_loop ?ks (\<lambda>(i, j). ?body i j) (np_full ?np ?ng 0)"
    by (rule for_loop_product)
  also have "\<dots> = for_loop ?ks (\<lambda>(a, b) arr. np_set arr (int a) (int b) (?f (a, b))) (np_full ?np ?ng 0)"
    by (rule for_loop_cong) (auto simp: body simp del: index2node.simps)
  also have "\<dots> = Inr (?np, ?ng, fold (\<lambda>ij d. d(ij := ?f ij)) ?ks (\<lambda>ij. 0))"
    unfolding np_full_def by (rule fill_loop) auto
  finally have loop: "for_loop [0..<?np] (\<lambda>i a. for_loop [0..<?ng] (\<lambda>j a. ?body i j a) a) (np_full ?np ?ng 0)
        = Inr (?np, ?ng, fold (\<lambda>ij d. d(ij := ?f ij)) ?ks (\<lambda>ij. 0))" .
  let ?d = "fold (\<lambda>ij d. d(ij := ?f ij)) ?ks (\<lambda>ij. 0)"
  let ?A = "\<lparr> ptree = P, gtree = G, threshold_iou = thr,
                flexible_terminal_alignment = flexible,
                n_ptree = ?np, n_gtree = ?ng,
                span_ious = np_threshold (?np, ?ng, ?d) thr,
                max_matching_weights = np_full ?np ?ng (- 1),
                trace = (\<lambda>k. {}) \<rparr>"
  have init: "TreeAligner_init P G thr flexible = Inr ?A"
    unfolding TreeAligner_init_def nP nG sum.case loop ..
  have d: "?d (i, j) = ?f (i, j)" if "i < ?np" "j < ?ng" for i j
    using that by (simp add: fold_fun_upd)
  have "memo_ok thr flexible P G ?A"
    unfolding memo_ok_def by (simp add: np_threshold_def np_full_def d iou_entry_def Let_def)
  with init show ?thesis by blast
qed


lemma call_unfold:
  "TreeAligner_call self =
     (case align self (ptree self) (gtree self) default_eps of
        Inl e \<Rightarrow> Inl e
      | Inr ((max_weight, max_weight_trace), self0) \<Rightarrow>
     (case initial_table (length (eleaves (ptree self))) (length (eleaves (gtree self))) of
        Inl e \<Rightarrow> Inl e
      | Inr M0 \<Rightarrow>
     (case subtree_indices (ptree self) of
        Inl e \<Rightarrow> Inl e
      | Inr p_indices \<Rightarrow>
     (case for_loop p_indices (\<lambda>pnode_subtree_index st.
             (case subtree_indices (gtree self) of
                Inl e \<Rightarrow> Inl e
              | Inr g_indices \<Rightarrow>
             for_loop g_indices (\<lambda>gnode_subtree_index st.
               if pnode_subtree_index = 0 \<and> gnode_subtree_index = 0 then Inr st
               else pair_step (ptree self) (gtree self) 1 1 pnode_subtree_index gnode_subtree_index st)
               st))
             (self0, M0, \<lambda>k. {}) of
        Inl e \<Rightarrow> Inl e
      | Inr (self1, M, tr) \<Rightarrow>
     (case scan_cells M tr (max_weight, max_weight_trace) of
        Inl e \<Rightarrow> Inl e
      | Inr (best, best_trace) \<Rightarrow>
     (case n_nodes (ptree self) of
        Inl e \<Rightarrow> Inl e
      | Inr np \<Rightarrow>
     (case n_nodes (gtree self) of
        Inl e \<Rightarrow> Inl e
      | Inr ng \<Rightarrow>
          Inr ((best * 2 / (real np + real ng), best_trace), self1))))))))"
proof -
  have r: "relax_cells st (fst p - 1 + 1, snd p - 1 + 1) (fst g - 1 + 1, snd g - 1 + 1) w t
           = relax_cells st p g w t" for st p g w t
    by simp
  show ?thesis unfolding TreeAligner_call_def pair_step_def r ..
qed

lemma index_edges_top:
  assumes wp: "wf_at P 0 lp" and wg: "wf_at G 0 lg"
  shows "map (index_edge thr flexible P G 0 0)
           (filter (\<lambda>(k, k'). \<not> (k = 0 \<and> k' = 0))
              (List.product [0..<node_count P] [0..<node_count G]))
         = top_edges thr flexible P G"
proof -
  let ?pn = "\<lambda>k. preorder P ! k" and ?gn = "\<lambda>k. preorder G ! k"
  have pp: "preorder P = map ?pn [0..<node_count P]"
    by (rule nth_equalityI) (simp_all add: length_preorder)
  have pg: "preorder G = map ?gn [0..<node_count G]"
    by (rule nth_equalityI) (simp_all add: length_preorder)
  have prod: "List.product (preorder P) (preorder G)
        = map (\<lambda>(k, k'). (?pn k, ?gn k')) (List.product [0..<node_count P] [0..<node_count G])"
    by (subst pp, subst pg) (rule product_map)
  have idx: "node_index (?pn k) = k" if "k < node_count P" for k
    using wf_at_fields(1) [OF wf_nth(1) [OF wp that]] by simp
  have idg: "node_index (?gn k) = k" if "k < node_count G" for k
    using wf_at_fields(1) [OF wf_nth(1) [OF wg that]] by simp
  have flt: "filter ((\<lambda>(u', v'). \<not> (node_index u' = 0 \<and> node_index v' = 0)) \<circ> (\<lambda>(k, k'). (?pn k, ?gn k')))
               (List.product [0..<node_count P] [0..<node_count G])
             = filter (\<lambda>(k, k'). \<not> (k = 0 \<and> k' = 0)) (List.product [0..<node_count P] [0..<node_count G])"
    by (rule filter_cong) (auto simp: idx idg)
  show ?thesis
    unfolding top_edges_def prod filter_map flt wf_root [OF wp] wf_root [OF wg]
    by (simp add: index_edge_def case_prod_unfold comp_def wf_root [OF wp] wf_root [OF wg])
qed

theorem TreeAligner_call_ok:
  assumes wp: "wf_at P 0 1" and wg: "wf_at G 0 1" and ok: "memo_ok thr flexible P G A"
  shows "\<exists>t A'. TreeAligner_call A
           = Inr ((best_weight thr flexible P G * 2 / (real (node_count P) + real (node_count G)), t), A')
         \<and> memo_ok thr flexible P G A'"
proof -
  let ?np = "node_count P" and ?ng = "node_count G"
  let ?nlu = "length (eleaves P)" and ?nlv = "length (eleaves G)"
  let ?ks = "filter (\<lambda>(k, k'). \<not> (k = 0 \<and> k' = 0)) (List.product [0..<?np] [0..<?ng])"
  let ?step = "\<lambda>(k, k'). pair_step P G 1 1 k k'"
  let ?Mp = "fold relax_edge (top_edges thr flexible P G) table0"
  let ?W = "align_weight thr flexible P G"
  have pt: "ptree A = P" and gt: "gtree A = G" using ok by (auto simp: memo_ok_def)
  have np0: "0 < ?np" using wf_node_count_pos [OF wp] .
  have ng0: "0 < ?ng" using wf_node_count_pos [OF wg] .
  have rp: "preorder P ! 0 = P" by (rule wf_root [OF wp])
  have rg: "preorder G ! 0 = G" by (rule wf_root [OF wg])
  from align_refines [OF wp wg ok np0 ng0] obtain t0 A0 where
    al: "align A P G default_eps = Inr ((?W, t0), A0)" and ok0: "memo_ok thr flexible P G A0"
    unfolding rp rg by blast
  have si_u: "subtree_indices P = Inr [0..<?np]" using wf_subtree_indices [OF wp] by simp
  have si_v: "subtree_indices G = Inr [0..<?ng]" using wf_subtree_indices [OF wg] by simp
  have lP: "fst (node_leaf_range P) = 1" using wf_at_fields(2) [OF wp] by simp
  have lG: "fst (node_leaf_range G) = 1" using wf_at_fields(2) [OF wg] by simp
  have loops: "for_loop [0..<?np] (\<lambda>k st.
             (case subtree_indices G of
                Inl e \<Rightarrow> Inl e
              | Inr g_indices \<Rightarrow>
             for_loop g_indices (\<lambda>k' st.
               if k = 0 \<and> k' = 0 then Inr st
               else pair_step P G 1 1 k k' st)
               st)) s0
           = for_loop ?ks ?step s0" for s0
    unfolding si_v sum.case by (rule for_loop_product_skip)
  have ksb: "\<forall>(k, k')\<in>set ?ks. 0 \<le> k \<and> k < 0 + node_count (preorder P ! 0)
                \<and> 0 \<le> k' \<and> k' < 0 + node_count (preorder G ! 0) \<and> 0 \<le> k"
    unfolding rp rg by auto
  have rec: "\<exists>t A2. align A1 (preorder P ! k) (preorder G ! k') default_eps
                         = Inr ((align_weight thr flexible (preorder P ! k) (preorder G ! k'), t), A2)
                      \<and> memo_ok thr flexible P G A2 \<and> rows_kept k A1 A2"
    if kk: "(k, k') \<in> set ?ks" and ok1: "memo_ok thr flexible P G A1" for k k' A1
  proof -
    from kk have "k < ?np" "k' < ?ng" by auto
    from align_refines [OF wp wg ok1 this] show ?thesis by blast
  qed
  from pair_loop_ok [OF wp wg np0 ng0 ksb ok0 rec, of table0 "\<lambda>k. {}", unfolded rp rg lP lG]
  obtain A1 tr1 where
    l1: "for_loop ?ks ?step (A0, (?nlu + 1, ?nlv + 1, table0), \<lambda>k. {})
         = Inr (A1, (?nlu + 1, ?nlv + 1,
                     fold relax_edge (map (index_edge thr flexible P G 0 0) ?ks) table0), tr1)"
    and ok1: "memo_ok thr flexible P G A1"
    by blast
  have Mp: "fold relax_edge (map (index_edge thr flexible P G 0 0) ?ks) table0 = ?Mp"
    unfolding index_edges_top [OF wp wg] ..
  have e: "{..<?nlu + 1} = {..?nlu}" "{..<?nlv + 1} = {..?nlv}" by auto
  from scan_cells_ok [of "?nlu + 1" "?nlv + 1" ?Mp tr1 ?W t0]
  obtain bt where sc: "scan_cells (?nlu + 1, ?nlv + 1, ?Mp) tr1 (?W, t0)
        = Inr (Max (insert ?W (?Mp ` ({..?nlu} \<times> {..?nlv}))), bt)"
    unfolding e by blast
  have "Max (insert ?W (?Mp ` ({..?nlu} \<times> {..?nlv}))) = max ?W (Max (?Mp ` ({..?nlu} \<times> {..?nlv})))"
    by (subst Max_insert) auto
  then have bw: "Max (insert ?W (?Mp ` ({..?nlu} \<times> {..?nlv}))) = best_weight thr flexible P G"
    by (simp add: best_weight_def best_cell_def)
  have nP: "n_nodes P = Inr ?np" using wf_n_nodes(1) [OF wp] by simp
  have nG: "n_nodes G = Inr ?ng" using wf_n_nodes(1) [OF wg] by simp
  have "TreeAligner_call A
        = Inr ((best_weight thr flexible P G * 2 / (real ?np + real ?ng), bt), A1)"
    by (simp only: call_unfold pt gt al sum.case prod.case initial_table_ok si_u loops
          l1 [unfolded Mp] sc bw nP nG)
  with ok1 show ?thesis by blast
qed

theorem struct_iou_refines:
  assumes "well_formed P" "well_formed G"
  shows "struct_iou P G thr flexible
         = Inr (best_weight thr flexible P G * 2 / (real (node_count P) + real (node_count G)))"
proof -
  have wp: "wf_at P 0 1" and wg: "wf_at G 0 1" using assms by (auto simp: well_formed_def)
  from TreeAligner_init_ok [OF wp wg, of thr flexible] obtain A where
    A: "TreeAligner_init P G thr flexible = Inr A" "memo_ok thr flexible P G A" by blast
  from TreeAligner_call_ok [OF wp wg A(2)] obtain t A' where
    "TreeAligner_call A
       = Inr ((best_weight thr flexible P G * 2 / (real (node_count P) + real (node_count G)), t), A')"
    by blast
  with A(1) show ?thesis by (simp add: struct_iou_def)
qed

section \<open>The interval dynamic programme over a list of edges\<close>

lemma relax_edge_other: "c \<noteq> fst (snd e) \<Longrightarrow> relax_edge e M c = M c"
  by (cases e) (auto simp: relax_edge_def)

lemma relax_edge_tgt:
  "0 < pl \<Longrightarrow> 0 < gl \<Longrightarrow>
   relax_edge ((pl, gl), tgt, w) M tgt = max (M tgt) (Max (M ` ({..<pl} \<times> {..<gl})) + w)"
  by (simp add: relax_edge_def)

lemma relax_edge_bound:
  assumes "M \<le> T" "edge_closed T e"
  shows "relax_edge e M c \<le> T c"
proof -
  obtain pl gl tgt w where e: "e = ((pl, gl), tgt, w)" by (cases e) auto
  note le = le_funD [OF assms(1)]
  show ?thesis
  proof (cases "pl = 0 \<or> gl = 0 \<or> c \<noteq> tgt")
    case True
    then show ?thesis using le [of c] by (auto simp: relax_edge_def e)
  next
    case False
    then have p: "0 < pl" "0 < gl" "c = tgt" by auto
    have fin: "finite (M ` ({..<pl} \<times> {..<gl}))" by simp
    have ne: "M ` ({..<pl} \<times> {..<gl}) \<noteq> {}" using p by auto
    have "Max (M ` ({..<pl} \<times> {..<gl})) \<in> M ` ({..<pl} \<times> {..<gl})" using fin ne by (rule Max_in)
    then obtain a b where ab: "a < pl" "b < gl" "Max (M ` ({..<pl} \<times> {..<gl})) = M (a, b)" by auto
    have "M (a, b) + w \<le> T (a, b) + w" using le [of "(a, b)"] by simp
    also have "\<dots> \<le> T tgt" using assms(2) ab(1,2) by (auto simp: edge_closed_def e)
    finally have "Max (M ` ({..<pl} \<times> {..<gl})) + w \<le> T tgt" using ab(3) by simp
    moreover have "M tgt \<le> T tgt" using le [of tgt] .
    ultimately show ?thesis unfolding e p(3) relax_edge_tgt [OF p(1,2)] by simp
  qed
qed

lemma fold_relax_bound:
  "M \<le> T \<Longrightarrow> \<forall>e\<in>set es. edge_closed T e \<Longrightarrow> fold relax_edge es M \<le> T"
proof (induction es arbitrary: M)
  case Nil
  then show ?case by simp
next
  case (Cons e es)
  have "relax_edge e M \<le> T"
    using relax_edge_bound [of M T e] Cons.prems by (intro le_funI) auto
  then show ?case using Cons.IH [of "relax_edge e M"] Cons.prems(2) by simp
qed

lemma fold_relax_ge_fun: "M \<le> fold relax_edge es M"
  by (rule le_funI) (rule fold_relax_ge)

lemma relax_edge_closed:
  assumes "nosrc e e"
  shows "edge_closed (relax_edge e M) e"
proof -
  obtain pl gl pr gr w where e: "e = ((pl, gl), (pr, gr), w)" by (cases e) auto
  show ?thesis
    unfolding edge_closed_def e prod.case
  proof (intro allI impI)
    fix a b assume ab: "a < pl" "b < gl"
    then have p: "0 < pl" "0 < gl" by auto
    have ns: "(a, b) \<noteq> (pr, gr)" using assms ab by (auto simp: nosrc_def e)
    have fin: "finite (M ` ({..<pl} \<times> {..<gl}))" by simp
    have "M (a, b) \<le> Max (M ` ({..<pl} \<times> {..<gl}))" using ab by (intro Max_ge [OF fin]) auto
    moreover have "relax_edge ((pl, gl), (pr, gr), w) M (a, b) = M (a, b)"
      using ns by (intro relax_edge_other) simp
    ultimately show "relax_edge ((pl, gl), (pr, gr), w) M (a, b) + w
                     \<le> relax_edge ((pl, gl), (pr, gr), w) M (pr, gr)"
      unfolding relax_edge_tgt [OF p] by simp
  qed
qed

lemma relax_edge_keeps_closed:
  assumes "edge_closed M e" "nosrc e e'"
  shows "edge_closed (relax_edge e' M) e"
proof -
  obtain pl gl tgt w where e: "e = ((pl, gl), tgt, w)" by (cases e) auto
  obtain s' pr' gr' w' where e': "e' = (s', (pr', gr'), w')" by (cases e') auto
  show ?thesis
    unfolding edge_closed_def e prod.case
  proof (intro allI impI)
    fix a b assume ab: "a < pl" "b < gl"
    have "(a, b) \<noteq> (pr', gr')" using assms(2) ab by (auto simp: nosrc_def e e')
    then have "relax_edge e' M (a, b) = M (a, b)" by (intro relax_edge_other) (simp add: e')
    moreover have "M (a, b) + w \<le> M tgt" using assms(1) ab by (auto simp: edge_closed_def e)
    moreover have "M tgt \<le> relax_edge e' M tgt" by (rule relax_edge_ge)
    ultimately show "relax_edge e' M (a, b) + w \<le> relax_edge e' M tgt" by simp
  qed
qed

lemma fold_relax_keeps_closed:
  "edge_closed M e \<Longrightarrow> \<forall>e'\<in>set es. nosrc e e' \<Longrightarrow> edge_closed (fold relax_edge es M) e"
  by (induction es arbitrary: M) (auto intro: relax_edge_keeps_closed)

lemma fold_relax_closed:
  "ordered es \<Longrightarrow> e \<in> set es \<Longrightarrow> edge_closed (fold relax_edge es M) e"
proof (induction es arbitrary: M)
  case Nil
  then show ?case by simp
next
  case (Cons x es)
  show ?case
  proof (cases "e = x")
    case True
    have "edge_closed (relax_edge x M) x" using Cons.prems(1) by (intro relax_edge_closed) simp
    then have "edge_closed (fold relax_edge es (relax_edge x M)) x"
      using Cons.prems(1) by (intro fold_relax_keeps_closed) auto
    with True show ?thesis by simp
  next
    case False
    with Cons.prems have "e \<in> set es" "ordered es" by auto
    from Cons.IH [OF this(2,1)] show ?thesis by simp
  qed
qed

text \<open>
  Two runs over the same edges, each in an order in which no edge writes a cell that an
  earlier edge (or the edge itself) reads, end in the same table.
\<close>

lemma fold_relax_order_irrelevant:
  assumes "ordered es1" "ordered es2" "set es1 = set es2"
  shows "fold relax_edge es1 M = fold relax_edge es2 M"
proof (rule antisym)
  show "fold relax_edge es1 M \<le> fold relax_edge es2 M"
    using assms by (intro fold_relax_bound fold_relax_ge_fun) (auto intro: fold_relax_closed)
  show "fold relax_edge es2 M \<le> fold relax_edge es1 M"
    using assms by (intro fold_relax_bound fold_relax_ge_fun) (auto intro: fold_relax_closed)
qed

text \<open>The table grows with the weights of the edges.\<close>

lemma relax_edge_mono:
  assumes "M \<le> M'" "w \<le> w'"
  shows "relax_edge (src, tgt, w) M c \<le> relax_edge (src, tgt, w') M' c"
proof -
  obtain pl gl where s: "src = (pl, gl)" by (cases src)
  note le = le_funD [OF assms(1)]
  show ?thesis
  proof (cases "pl = 0 \<or> gl = 0 \<or> c \<noteq> tgt")
    case True
    then show ?thesis using le [of c] by (auto simp: relax_edge_def s)
  next
    case False
    then have p: "0 < pl" "0 < gl" "c = tgt" by auto
    have fin: "finite (M ` ({..<pl} \<times> {..<gl}))" "finite (M' ` ({..<pl} \<times> {..<gl}))" by simp_all
    have ne: "M ` ({..<pl} \<times> {..<gl}) \<noteq> {}" using p by auto
    have "Max (M ` ({..<pl} \<times> {..<gl})) \<in> M ` ({..<pl} \<times> {..<gl})" using fin(1) ne by (rule Max_in)
    then obtain ab where ab: "ab \<in> {..<pl} \<times> {..<gl}" "Max (M ` ({..<pl} \<times> {..<gl})) = M ab" by auto
    have "M ab \<le> M' ab" using le [of ab] .
    also have "\<dots> \<le> Max (M' ` ({..<pl} \<times> {..<gl}))" using ab(1) by (intro Max_ge [OF fin(2)]) auto
    finally have "Max (M ` ({..<pl} \<times> {..<gl})) \<le> Max (M' ` ({..<pl} \<times> {..<gl}))" using ab(2) by simp
    moreover have "M tgt \<le> M' tgt" using le [of tgt] .
    ultimately show ?thesis
      unfolding s p(3) relax_edge_tgt [OF p(1,2)] using assms(2) by (simp add: max_def)
  qed
qed

lemma fold_relax_mono:
  assumes "M \<le> M'"
    and "list_all2 (\<lambda>e e'. fst e = fst e' \<and> fst (snd e) = fst (snd e') \<and> snd (snd e) \<le> snd (snd e')) es es'"
  shows "fold relax_edge es M \<le> fold relax_edge es' M'"
  using assms(2,1)
proof (induction es es' arbitrary: M M' rule: list_all2_induct)
  case Nil
  then show ?case by simp
next
  case (Cons e es e' es')
  obtain src tgt w where e: "e = (src, tgt, w)" by (cases e) auto
  obtain w' where e': "e' = (src, tgt, w')" "w \<le> w'" using Cons.hyps(1) e by (cases e') auto
  have "relax_edge e M \<le> relax_edge e' M'"
    unfolding e e'(1) using relax_edge_mono [OF Cons.prems e'(2)] by (intro le_funI)
  from Cons.IH [OF this] show ?case by simp
qed

lemma best_cell_mono: "M \<le> M' \<Longrightarrow> best_cell n m M \<le> best_cell n m M'"
proof -
  assume "M \<le> M'"
  note le = le_funD [OF this]
  have fin: "finite (M ` ({..n} \<times> {..m}))" "finite (M' ` ({..n} \<times> {..m}))" by simp_all
  have ne: "M ` ({..n} \<times> {..m}) \<noteq> {}" by auto
  have "Max (M ` ({..n} \<times> {..m})) \<in> M ` ({..n} \<times> {..m})" using fin(1) ne by (rule Max_in)
  then obtain ab where ab: "ab \<in> {..n} \<times> {..m}" "Max (M ` ({..n} \<times> {..m})) = M ab"
    by (rule imageE)
  have "M ab \<le> M' ab" using le [of ab] .
  also have "\<dots> \<le> Max (M' ` ({..n} \<times> {..m}))" using ab(1) by (intro Max_ge [OF fin(2)]) auto
  finally show ?thesis using ab(2) by (simp add: best_cell_def)
qed

lemma best_cell_le:
  assumes "\<forall>r\<le>n. \<forall>c\<le>m. M (r, c) \<le> x"
  shows "best_cell n m M \<le> x"
proof -
  have fin: "finite (M ` ({..n} \<times> {..m}))" by simp
  have ne: "M ` ({..n} \<times> {..m}) \<noteq> {}" by auto
  have "Max (M ` ({..n} \<times> {..m})) \<in> M ` ({..n} \<times> {..m})" using fin ne by (rule Max_in)
  then obtain ab where ab: "ab \<in> {..n} \<times> {..m}" "Max (M ` ({..n} \<times> {..m})) = M ab"
    by (rule imageE)
  obtain r c where rc: "ab = (r, c)" by (cases ab)
  with ab(1) have "r \<le> n" "c \<le> m" by auto
  with assms have "M (r, c) \<le> x" by blast
  then show ?thesis unfolding best_cell_def ab(2) rc .
qed

lemma best_cell_ge: "r \<le> n \<Longrightarrow> c \<le> m \<Longrightarrow> M (r, c) \<le> best_cell n m M"
  unfolding best_cell_def by (rule Max_ge) auto

section \<open>Raising the threshold\<close>

lemma iou_entry_nonneg: "0 \<le> iou_entry thr u v"
  using span_iou_nonneg [OF default_eps_pos, of "node_time u" "node_time v"]
  by (simp add: iou_entry_def Let_def)

lemma iou_entry_le_1: "iou_entry thr u v \<le> 1"
  using span_iou_le_1 [OF default_eps_pos, of "node_time u" "node_time v"]
    span_iou_nonneg [OF default_eps_pos, of "node_time u" "node_time v"]
  by (simp add: iou_entry_def Let_def)

lemma fold_table0_origin: "0 \<le> fold relax_edge es table0 (0, 0)"
  using fold_relax_ge [of table0 "(0, 0)" es] by (simp add: table0_origin)

lemma align_weight_nonneg: "0 \<le> align_weight thr flexible u v"
proof -
  have "0 \<le> best_cell (length (eleaves u)) (length (eleaves v))
              (fold relax_edge (align_edges thr flexible u v) table0)"
    by (rule best_cell_ge0) (rule fold_table0_origin)
  then show ?thesis
    using iou_entry_nonneg [of thr u v] by (subst align_weight_edges) (simp add: Let_def)
qed

lemma best_weight_nonneg: "0 \<le> best_weight thr flexible p g"
  using align_weight_nonneg [of thr flexible p g] by (simp add: best_weight_def max_def)

lemma iou_entry_threshold:
  assumes "t1 \<le> t2"
  shows "iou_entry t2 u v = iou_entry t1 u v \<or> iou_entry t2 u v = 0"
  using assms by (auto simp: iou_entry_def Let_def)

lemma list_all2_map_same:
  "(\<And>x. x \<in> set xs \<Longrightarrow> R (f x) (g x)) \<Longrightarrow> list_all2 R (map f xs) (map g xs)"
  by (induction xs) auto

lemma align_weight_threshold:
  assumes t: "t1 \<le> t2"
  shows "align_weight t2 flexible u v \<le> align_weight t1 flexible u v"
proof (induction "size u" arbitrary: u v rule: less_induct)
  case less
  let ?i1 = "iou_entry t1 u v" and ?i2 = "iou_entry t2 u v"
  let ?L = "(\<not> is_preterminal u \<and> \<not> is_preterminal v \<and> node_label u \<noteq> node_label v)
            \<or> (\<not> flexible \<and> node_label u \<noteq> node_label v)"
  have r1: "rejects flexible ?i1 u v \<longleftrightarrow> eps_eq ?i1 0 default_eps \<or> ?L" by (simp add: rejects_def)
  have r2: "rejects flexible ?i2 u v \<longleftrightarrow> eps_eq ?i2 0 default_eps \<or> ?L" by (simp add: rejects_def)
  show ?case
  proof (cases "rejects flexible ?i2 u v")
    case True
    then have "align_weight t2 flexible u v = 0" by (subst align_weight_edges) simp
    then show ?thesis using align_weight_nonneg [of t1 flexible u v] by simp
  next
    case False
    then have ne: "\<not> eps_eq ?i2 0 default_eps" and nL: "\<not> ?L" using r2 by auto
    from ne have "?i2 \<noteq> 0" using default_eps_pos by (auto simp: eps_eq_def)
    with iou_entry_threshold [OF t, of u v] have eq: "?i2 = ?i1" by auto
    then have nr1: "\<not> rejects flexible ?i1 u v" using ne nL r1 by simp
    show ?thesis
    proof (cases "is_preterminal u \<or> is_preterminal v")
      case True
      have "align_weight t2 flexible u v = ?i2"
        using False True by (subst align_weight_edges) (simp add: Let_def)
      moreover have "align_weight t1 flexible u v = ?i1"
        using nr1 True by (subst align_weight_edges) (simp add: Let_def)
      ultimately show ?thesis using eq by simp
    next
      case np: False
      let ?n = "length (eleaves u)" and ?m = "length (eleaves v)"
      have "list_all2 (\<lambda>e e'. fst e = fst e' \<and> fst (snd e) = fst (snd e') \<and> snd (snd e) \<le> snd (snd e'))
              (align_edges t2 flexible u v) (align_edges t1 flexible u v)"
        unfolding align_edges_def
      proof (rule list_all2_map_same)
        fix x assume x: "x \<in> set (List.product (tl (preorder u)) (tl (preorder v)))"
        obtain u' v' where uv: "x = (u', v')" by (cases x)
        with x have "u' \<in> set (tl (preorder u))" by auto
        then have "size u' < size u" by (rule preorder_tl_size)
        from less.hyps [OF this, of v'] show "fst (case x of (u', v') \<Rightarrow> pair_edge (local_range u) (local_range v) (align_weight t2 flexible u' v') u' v')
            = fst (case x of (u', v') \<Rightarrow> pair_edge (local_range u) (local_range v) (align_weight t1 flexible u' v') u' v')
          \<and> fst (snd (case x of (u', v') \<Rightarrow> pair_edge (local_range u) (local_range v) (align_weight t2 flexible u' v') u' v'))
            = fst (snd (case x of (u', v') \<Rightarrow> pair_edge (local_range u) (local_range v) (align_weight t1 flexible u' v') u' v'))
          \<and> snd (snd (case x of (u', v') \<Rightarrow> pair_edge (local_range u) (local_range v) (align_weight t2 flexible u' v') u' v'))
            \<le> snd (snd (case x of (u', v') \<Rightarrow> pair_edge (local_range u) (local_range v) (align_weight t1 flexible u' v') u' v'))"
          by (simp add: uv pair_edge_def)
      qed
      then have "fold relax_edge (align_edges t2 flexible u v) table0
                 \<le> fold relax_edge (align_edges t1 flexible u v) table0"
        by (intro fold_relax_mono) simp_all
      then have b: "best_cell ?n ?m (fold relax_edge (align_edges t2 flexible u v) table0)
                 \<le> best_cell ?n ?m (fold relax_edge (align_edges t1 flexible u v) table0)"
        by (rule best_cell_mono)
      have "align_weight t2 flexible u v
            = ?i2 + best_cell ?n ?m (fold relax_edge (align_edges t2 flexible u v) table0)"
        using False np by (subst align_weight_edges) (simp add: Let_def)
      moreover have "align_weight t1 flexible u v
            = ?i1 + best_cell ?n ?m (fold relax_edge (align_edges t1 flexible u v) table0)"
        using nr1 np by (subst align_weight_edges) (simp add: Let_def)
      ultimately show ?thesis using eq b by simp
    qed
  qed
qed

lemma best_weight_threshold:
  assumes t: "t1 \<le> t2"
  shows "best_weight t2 flexible p g \<le> best_weight t1 flexible p g"
proof -
  let ?n = "length (eleaves p)" and ?m = "length (eleaves g)"
  have "list_all2 (\<lambda>e e'. fst e = fst e' \<and> fst (snd e) = fst (snd e') \<and> snd (snd e) \<le> snd (snd e'))
          (top_edges t2 flexible p g) (top_edges t1 flexible p g)"
    unfolding top_edges_def
    by (rule list_all2_map_same) (auto simp: pair_edge_def align_weight_threshold [OF t])
  then have "fold relax_edge (top_edges t2 flexible p g) table0
             \<le> fold relax_edge (top_edges t1 flexible p g) table0"
    by (intro fold_relax_mono) simp_all
  then have "best_cell ?n ?m (fold relax_edge (top_edges t2 flexible p g) table0)
             \<le> best_cell ?n ?m (fold relax_edge (top_edges t1 flexible p g) table0)"
    by (rule best_cell_mono)
  with align_weight_threshold [OF t, of flexible p g] show ?thesis
    by (auto simp: best_weight_def max_def)
qed

text \<open>
  Claim C4.  For two well-formed annotated trees and thresholds \<open>t1 \<le> t2\<close> (same
  \<open>flexible_terminal_alignment\<close>), \<open>struct_iou\<close> returns a score for both, and the score
  with \<open>t2\<close> is at most the score with \<open>t1\<close>.  In the aligner built with threshold \<open>t\<close>
  the span IoU of a pair of nodes is stored as 0 when it is at or below \<open>t\<close>, and
  unchanged otherwise.
\<close>

theorem threshold_monotone:
  "well_formed P \<Longrightarrow> well_formed G \<Longrightarrow> t1 \<le> t2 \<Longrightarrow>
   (\<exists>s1 s2. struct_iou P G t1 flexible = Inr s1 \<and> struct_iou P G t2 flexible = Inr s2 \<and> s2 \<le> s1)
   \<and> (\<forall>t. \<exists>A. TreeAligner_init P G t flexible = Inr A
          \<and> (\<forall>i<node_count P. \<forall>j<node_count G.
                np_get (span_ious A) (int i) (int j)
                = Inr (if span_iou (node_time (preorder P ! i)) (node_time (preorder G ! j)) default_eps \<le> t
                       then 0
                       else span_iou (node_time (preorder P ! i)) (node_time (preorder G ! j)) default_eps)))"
proof -
  assume wf: "well_formed P" "well_formed G" and t: "t1 \<le> t2"
  have wp: "wf_at P 0 1" and wg: "wf_at G 0 1" using wf by (auto simp: well_formed_def)
  let ?d = "real (node_count P) + real (node_count G)"
  have "0 < node_count P" using wf_node_count_pos [OF wp] .
  then have d: "0 < ?d" by simp
  have "best_weight t2 flexible P G * 2 / ?d \<le> best_weight t1 flexible P G * 2 / ?d"
    using best_weight_threshold [OF t, of flexible P G] d by (simp add: divide_right_mono)
  then have a: "\<exists>s1 s2. struct_iou P G t1 flexible = Inr s1 \<and> struct_iou P G t2 flexible = Inr s2 \<and> s2 \<le> s1"
    using struct_iou_refines [OF wf] by simp
  have b: "\<exists>A. TreeAligner_init P G t flexible = Inr A
          \<and> (\<forall>i<node_count P. \<forall>j<node_count G.
                np_get (span_ious A) (int i) (int j)
                = Inr (if span_iou (node_time (preorder P ! i)) (node_time (preorder G ! j)) default_eps \<le> t
                       then 0
                       else span_iou (node_time (preorder P ! i)) (node_time (preorder G ! j)) default_eps))" for t
  proof -
    from TreeAligner_init_ok [OF wp wg, of t flexible] obtain A where
      A: "TreeAligner_init P G t flexible = Inr A" "memo_ok t flexible P G A" by blast
    from A(2) obtain d where
      sp: "span_ious A = (node_count P, node_count G, d)"
      and dp: "\<forall>i<node_count P. \<forall>j<node_count G. d (i, j) = iou_entry t (preorder P ! i) (preorder G ! j)"
      unfolding memo_ok_def by blast
    have "np_get (span_ious A) (int i) (int j)
                = Inr (if span_iou (node_time (preorder P ! i)) (node_time (preorder G ! j)) default_eps \<le> t
                       then 0
                       else span_iou (node_time (preorder P ! i)) (node_time (preorder G ! j)) default_eps)"
      if "i < node_count P" "j < node_count G" for i j
      unfolding sp using np_get_ok [of "int i" "node_count P" "int j" "node_count G" d] that dp
      by (simp add: iou_entry_def Let_def)
    with A(1) show ?thesis by blast
  qed
  from a b show ?thesis by blast
qed

theorem threshold_monotone_witness:
  "well_formed (ETree 0 (0, 2) (1, 1) ''A'' [ELeaf ''x''])
   \<and> well_formed (ETree 0 (0, 3) (1, 1) ''A'' [ELeaf ''y''])
   \<and> (0 :: real) \<le> 1 / 2
   \<and> (\<exists>s1 s2. struct_iou (ETree 0 (0, 2) (1, 1) ''A'' [ELeaf ''x''])
                 (ETree 0 (0, 3) (1, 1) ''A'' [ELeaf ''y'']) 0 True = Inr s1
             \<and> struct_iou (ETree 0 (0, 2) (1, 1) ''A'' [ELeaf ''x''])
                 (ETree 0 (0, 3) (1, 1) ''A'' [ELeaf ''y'']) (1 / 2) True = Inr s2
             \<and> s2 \<le> s1)"
proof -
  have h1: "well_formed (ETree 0 (0, 2) (1, 1) ''A'' [ELeaf ''x''])" by (simp add: well_formed_def)
  have h2: "well_formed (ETree 0 (0, 3) (1, 1) ''A'' [ELeaf ''y''])" by (simp add: well_formed_def)
  have h3: "(0 :: real) \<le> 1 / 2" by simp
  from threshold_monotone [OF h1 h2 h3, of True] h1 h2 h3 show ?thesis by blast
qed

section \<open>Counting nodes by leaf position\<close>

lemma wf_nth_range:
  assumes w: "wf_at T i l" and k: "k < node_count T"
  shows "fst (node_leaf_range T) \<le> fst (node_leaf_range (preorder T ! k))"
    and "fst (node_leaf_range (preorder T ! k)) \<le> snd (node_leaf_range (preorder T ! k))"
    and "snd (node_leaf_range (preorder T ! k)) \<le> snd (node_leaf_range T)"
proof -
  let ?u = "preorder T ! k"
  from wf_sub_ok(1) [OF w k] obtain l' where
    s: "wf_at ?u (i + k) l'" "l \<le> l'" "l' + int (length (eleaves ?u)) \<le> l + int (length (eleaves T))"
    unfolding sub_ok_def by blast
  have lu: "node_leaf_range ?u = (l', l' + int (length (eleaves ?u)) - 1)"
    using wf_at_fields(2) [OF s(1)] .
  have lT: "node_leaf_range T = (l, l + int (length (eleaves T)) - 1)"
    using wf_at_fields(2) [OF w] .
  have "0 < length (eleaves ?u)" using wf_leaves_pos(1) [OF s(1)] .
  then have pos: "1 \<le> int (length (eleaves ?u))" by linarith
  show "fst (node_leaf_range T) \<le> fst (node_leaf_range ?u)" using s(2) by (simp add: lu lT)
  show "fst (node_leaf_range ?u) \<le> snd (node_leaf_range ?u)"
    unfolding lu fst_conv snd_conv using pos by linarith
  show "snd (node_leaf_range ?u) \<le> snd (node_leaf_range T)" using s(3) by (simp add: lu lT)
qed

text \<open>The pre-order of a tree splits around the pre-order of the subtree at position \<open>k\<close>.\<close>

lemma preorder_split:
  assumes w: "wf_at T i l" and k: "k < node_count T" and k0: "k0 \<le> k"
  shows "drop k0 (preorder T)
         = drop k0 (take k (preorder T)) @ preorder (preorder T ! k)
           @ drop (k + node_count (preorder T ! k)) (preorder T)"
proof -
  let ?xs = "preorder T" and ?n = "node_count (preorder T ! k)"
  have b: "k + ?n \<le> length ?xs" using wf_nth(7) [OF w k] by (simp add: length_preorder)
  have "preorder (preorder T ! k) = take ?n (drop k ?xs)"
    unfolding wf_preorder_slice [OF w k]
    by (rule nth_equalityI) (use b in \<open>auto simp: min_def\<close>)
  moreover have "?xs = take k ?xs @ take ?n (drop k ?xs) @ drop (k + ?n) ?xs"
    by (metis append_take_drop_id drop_drop add.commute)
  ultimately have "?xs = take k ?xs @ preorder (preorder T ! k) @ drop (k + ?n) ?xs" by simp
  then have "drop k0 ?xs = drop k0 (take k ?xs @ preorder (preorder T ! k) @ drop (k + ?n) ?xs)"
    by simp
  also have "\<dots> = drop k0 (take k ?xs) @ preorder (preorder T ! k) @ drop (k + ?n) ?xs"
    using k0 k by (simp add: length_preorder min_def)
  finally show ?thesis .
qed

lemma count_upto_le: "count_upto u k0 r \<le> node_count u - k0"
  unfolding count_upto_def
  using length_filter_le [of "\<lambda>x. snd (local_range u x) \<le> r" "drop k0 (preorder u)"]
  by (simp add: length_preorder)

lemma filter_length_mono:
  "(\<And>x. x \<in> set xs \<Longrightarrow> P x \<Longrightarrow> Q x) \<Longrightarrow> length (filter P xs) \<le> length (filter Q xs)"
proof (induction xs)
  case Nil
  then show ?case by simp
next
  case (Cons x xs)
  then have "length (filter P xs) \<le> length (filter Q xs)" by simp
  with Cons.prems [of x] show ?case by auto
qed

lemma local_range_mono:
  assumes "fst (node_leaf_range u) \<le> a" "a \<le> b"
  shows "nat (a - fst (node_leaf_range u) + 1) \<le> nat (b - fst (node_leaf_range u) + 1)"
  using assms by simp

lemma count_upto_step:
  assumes w: "wf_at u i l" and k: "k < node_count u" and k0: "k0 \<le> k"
    and a: "a < fst (local_range u (preorder u ! k))"
  shows "count_upto u k0 a + node_count (preorder u ! k)
         \<le> count_upto u k0 (snd (local_range u (preorder u ! k)))"
proof -
  let ?u' = "preorder u ! k"
  let ?f = "\<lambda>x. snd (local_range u x)"
  let ?A = "drop k0 (take k (preorder u))" and ?S = "preorder ?u'"
  let ?B = "drop (k + node_count ?u') (preorder u)"
  let ?pl = "fst (local_range u ?u')" and ?pr = "snd (local_range u ?u')"
  have wu': "wf_at ?u' (i + k) (fst (node_leaf_range ?u'))" by (rule wf_nth(1) [OF w k])
  have ru: "fst (node_leaf_range u) \<le> fst (node_leaf_range ?u')" by (rule wf_nth_range(1) [OF w k])
  have inS: "?pl \<le> ?f y \<and> ?f y \<le> ?pr" if "y \<in> set ?S" for y
  proof -
    from that obtain m where m: "m < node_count ?u'" "y = preorder ?u' ! m"
      by (auto simp: in_set_conv_nth length_preorder)
    note r = wf_nth_range [OF wu' m(1), folded m(2)]
    have "fst (node_leaf_range u) \<le> fst (node_leaf_range y)" using ru r(1) by simp
    then show ?thesis
      unfolding local_range_def fst_conv snd_conv using ru r by linarith
  qed
  have le: "?pl \<le> ?pr" using wf_nth(3) [OF w k] .
  have split: "drop k0 (preorder u) = ?A @ ?S @ ?B" by (rule preorder_split [OF w k k0])
  have "\<not> ?f y \<le> a" if "y \<in> set ?S" for y
    using inS [OF that] a by linarith
  then have S0: "filter (\<lambda>x. ?f x \<le> a) ?S = []"
    by (simp add: filter_empty_conv)
  have S1: "filter (\<lambda>x. ?f x \<le> ?pr) ?S = ?S"
    using inS by (auto simp: filter_id_conv)
  have A: "length (filter (\<lambda>x. ?f x \<le> a) ?A) \<le> length (filter (\<lambda>x. ?f x \<le> ?pr) ?A)"
    using a le by (intro filter_length_mono) auto
  have B: "length (filter (\<lambda>x. ?f x \<le> a) ?B) \<le> length (filter (\<lambda>x. ?f x \<le> ?pr) ?B)"
    using a le by (intro filter_length_mono) auto
  show ?thesis
    unfolding count_upto_def split filter_append length_append S0 S1
    using A B by (simp add: length_preorder)
qed

section \<open>The weight of an alignment is at most the number of nodes\<close>

lemma bound_closed:
  assumes wu: "wf_at u i l" and wv: "wf_at v j l'"
    and k: "k < node_count u" "k0 \<le> k" and k': "k' < node_count v" "k0' \<le> k'"
    and w: "w \<le> real (min (node_count (preorder u ! k)) (node_count (preorder v ! k')))"
  shows "edge_closed (bound_table u v k0 k0')
           (pair_edge (local_range u) (local_range v) w (preorder u ! k) (preorder v ! k'))"
  unfolding edge_closed_def pair_edge_def prod.case
proof (intro allI impI)
  fix a b
  assume a: "a < fst (local_range u (preorder u ! k))" and b: "b < fst (local_range v (preorder v ! k'))"
  let ?nu = "node_count (preorder u ! k)" and ?nv = "node_count (preorder v ! k')"
  have p: "count_upto u k0 a + ?nu \<le> count_upto u k0 (snd (local_range u (preorder u ! k)))"
    by (rule count_upto_step [OF wu k a])
  have g: "count_upto v k0' b + ?nv \<le> count_upto v k0' (snd (local_range v (preorder v ! k')))"
    by (rule count_upto_step [OF wv k' b])
  have "real (min (count_upto u k0 a) (count_upto v k0' b)) + w
        \<le> real (min (count_upto u k0 a) (count_upto v k0' b)) + real (min ?nu ?nv)"
    using w by simp
  also have "\<dots> = real (min (count_upto u k0 a) (count_upto v k0' b) + min ?nu ?nv)" by simp
  also have "\<dots> \<le> real (min (count_upto u k0 (snd (local_range u (preorder u ! k))))
                           (count_upto v k0' (snd (local_range v (preorder v ! k')))))"
    using p g by (intro of_nat_mono) (simp add: min_def)
  finally show "bound_table u v k0 k0' (a, b) + w
        \<le> bound_table u v k0 k0' (snd (local_range u (preorder u ! k)), snd (local_range v (preorder v ! k')))"
    by (simp add: bound_table_def)
qed

lemma table0_le_bound: "table0 \<le> bound_table u v k0 k0'"
  by (rule le_funI) (auto simp: table0_def bound_table_def)

lemma dp_bound:
  assumes wu: "wf_at u i l" and wv: "wf_at v j l'"
    and es: "\<forall>e\<in>set es. \<exists>k k' w. k < node_count u \<and> k0 \<le> k \<and> k' < node_count v \<and> k0' \<le> k'
               \<and> w \<le> real (min (node_count (preorder u ! k)) (node_count (preorder v ! k')))
               \<and> e = pair_edge (local_range u) (local_range v) w (preorder u ! k) (preorder v ! k')"
  shows "best_cell n m (fold relax_edge es table0) \<le> real (min (node_count u - k0) (node_count v - k0'))"
proof -
  have "\<forall>e\<in>set es. edge_closed (bound_table u v k0 k0') e"
  proof
    fix e assume "e \<in> set es"
    with es obtain k k' w where "k < node_count u" "k0 \<le> k" "k' < node_count v" "k0' \<le> k'"
      "w \<le> real (min (node_count (preorder u ! k)) (node_count (preorder v ! k')))"
      "e = pair_edge (local_range u) (local_range v) w (preorder u ! k) (preorder v ! k')"
      by blast
    then show "edge_closed (bound_table u v k0 k0') e"
      using bound_closed [OF wu wv, of k k0 k' k0' w] by simp
  qed
  with table0_le_bound have le: "fold relax_edge es table0 \<le> bound_table u v k0 k0'"
    by (rule fold_relax_bound)
  show ?thesis
  proof (rule best_cell_le, intro allI impI)
    fix r c
    have "fold relax_edge es table0 (r, c) \<le> bound_table u v k0 k0' (r, c)"
      using le_funD [OF le] .
    also have "\<dots> \<le> real (min (node_count u - k0) (node_count v - k0'))"
      using count_upto_le [of u k0 r] count_upto_le [of v k0' c]
      by (simp add: bound_table_def min_def)
    finally show "fold relax_edge es table0 (r, c) \<le> real (min (node_count u - k0) (node_count v - k0'))" .
  qed
qed

lemma in_tl_nth: "x \<in> set (tl xs) \<Longrightarrow> \<exists>k. 0 < k \<and> k < length xs \<and> x = xs ! k"
proof (cases xs)
  case Nil
  assume "x \<in> set (tl xs)"
  with Nil show ?thesis by simp
next
  case (Cons y ys)
  assume "x \<in> set (tl xs)"
  with Cons obtain k where "k < length ys" "x = ys ! k" by (auto simp: in_set_conv_nth)
  with Cons show ?thesis by (intro exI [of _ "Suc k"]) simp
qed

theorem align_weight_le:
  "wf_at u i l \<Longrightarrow> wf_at v j l' \<Longrightarrow>
   align_weight thr flexible u v \<le> real (min (node_count u) (node_count v))"
proof (induction "size u" arbitrary: u v i l j l' rule: less_induct)
  case less
  note wu = less.prems(1) and wv = less.prems(2)
  have nu: "1 \<le> node_count u" using wf_node_count_pos [OF wu] by simp
  have nv: "1 \<le> node_count v" using wf_node_count_pos [OF wv] by simp
  have one: "(1 :: real) \<le> real (min (node_count u) (node_count v))" using nu nv by (simp add: min_def)
  let ?iou = "iou_entry thr u v"
  show ?case
  proof (cases "rejects flexible ?iou u v")
    case True
    then have "align_weight thr flexible u v = 0" by (subst align_weight_edges) simp
    then show ?thesis by simp
  next
    case False
    show ?thesis
    proof (cases "is_preterminal u \<or> is_preterminal v")
      case True
      have "align_weight thr flexible u v = ?iou"
        using False True by (subst align_weight_edges) (simp add: Let_def)
      then show ?thesis using iou_entry_le_1 [of thr u v] one by linarith
    next
      case np: False
      have es: "\<forall>e\<in>set (align_edges thr flexible u v).
              \<exists>k k' w. k < node_count u \<and> 1 \<le> k \<and> k' < node_count v \<and> 1 \<le> k'
               \<and> w \<le> real (min (node_count (preorder u ! k)) (node_count (preorder v ! k')))
               \<and> e = pair_edge (local_range u) (local_range v) w (preorder u ! k) (preorder v ! k')"
      proof
        fix e assume "e \<in> set (align_edges thr flexible u v)"
        then obtain u' v' where uv: "u' \<in> set (tl (preorder u))" "v' \<in> set (tl (preorder v))"
          "e = pair_edge (local_range u) (local_range v) (align_weight thr flexible u' v') u' v'"
          by (auto simp: align_edges_def)
        from in_tl_nth [OF uv(1)] obtain k where k: "0 < k" "k < node_count u" "u' = preorder u ! k"
          by (auto simp: length_preorder)
        from in_tl_nth [OF uv(2)] obtain k' where k': "0 < k'" "k' < node_count v" "v' = preorder v ! k'"
          by (auto simp: length_preorder)
        have "size u' < size u" using uv(1) by (rule preorder_tl_size)
        from less.hyps [OF this wf_nth(1) [OF wu k(2), folded k(3)] wf_nth(1) [OF wv k'(2), folded k'(3)]]
        have "align_weight thr flexible u' v' \<le> real (min (node_count u') (node_count v'))" .
        with k k' uv(3) show "\<exists>k k' w. k < node_count u \<and> 1 \<le> k \<and> k' < node_count v \<and> 1 \<le> k'
               \<and> w \<le> real (min (node_count (preorder u ! k)) (node_count (preorder v ! k')))
               \<and> e = pair_edge (local_range u) (local_range v) w (preorder u ! k) (preorder v ! k')"
          by (intro exI [of _ k] exI [of _ k'] exI [of _ "align_weight thr flexible u' v'"]) simp
      qed
      from dp_bound [OF wu wv es]
      have b: "best_cell (length (eleaves u)) (length (eleaves v))
                 (fold relax_edge (align_edges thr flexible u v) table0)
               \<le> real (min (node_count u - 1) (node_count v - 1))" .
      have "align_weight thr flexible u v
            = ?iou + best_cell (length (eleaves u)) (length (eleaves v))
                       (fold relax_edge (align_edges thr flexible u v) table0)"
        using False np by (subst align_weight_edges) (simp add: Let_def)
      also have "\<dots> \<le> 1 + real (min (node_count u - 1) (node_count v - 1))"
        using iou_entry_le_1 [of thr u v] b by simp
      also have "\<dots> = real (min (node_count u) (node_count v))"
      proof -
        have "1 + min (node_count u - 1) (node_count v - 1) = min (node_count u) (node_count v)"
          using nu nv by linarith
        then show ?thesis by (metis of_nat_1 of_nat_add)
      qed
      finally show ?thesis .
    qed
  qed
qed

theorem best_weight_le:
  assumes wp: "wf_at P 0 lp" and wg: "wf_at G 0 lg"
  shows "best_weight thr flexible P G \<le> real (min (node_count P) (node_count G))"
proof -
  have es: "\<forall>e\<in>set (top_edges thr flexible P G).
              \<exists>k k' w. k < node_count P \<and> 0 \<le> k \<and> k' < node_count G \<and> 0 \<le> k'
               \<and> w \<le> real (min (node_count (preorder P ! k)) (node_count (preorder G ! k')))
               \<and> e = pair_edge (local_range P) (local_range G) w (preorder P ! k) (preorder G ! k')"
  proof
    fix e assume "e \<in> set (top_edges thr flexible P G)"
    then obtain u' v' where uv: "u' \<in> set (preorder P)" "v' \<in> set (preorder G)"
      "e = pair_edge (local_range P) (local_range G) (align_weight thr flexible u' v') u' v'"
      by (auto simp: top_edges_def)
    from uv(1) obtain k where k: "k < node_count P" "u' = preorder P ! k"
      by (auto simp: in_set_conv_nth length_preorder)
    from uv(2) obtain k' where k': "k' < node_count G" "v' = preorder G ! k'"
      by (auto simp: in_set_conv_nth length_preorder)
    from align_weight_le [OF wf_nth(1) [OF wp k(1), folded k(2)] wf_nth(1) [OF wg k'(1), folded k'(2)]]
    have "align_weight thr flexible u' v' \<le> real (min (node_count u') (node_count v'))" .
    with k k' uv(3) show "\<exists>k k' w. k < node_count P \<and> 0 \<le> k \<and> k' < node_count G \<and> 0 \<le> k'
               \<and> w \<le> real (min (node_count (preorder P ! k)) (node_count (preorder G ! k')))
               \<and> e = pair_edge (local_range P) (local_range G) w (preorder P ! k) (preorder G ! k')"
      by (intro exI [of _ k] exI [of _ k'] exI [of _ "align_weight thr flexible u' v'"]) simp
  qed
  from dp_bound [OF wp wg es]
  have "best_cell (length (eleaves P)) (length (eleaves G))
          (fold relax_edge (top_edges thr flexible P G) table0)
        \<le> real (min (node_count P) (node_count G))" by simp
  with align_weight_le [OF wp wg] show ?thesis by (simp add: best_weight_def)
qed

text \<open>
  Claim C1.  For two well-formed annotated trees \<open>P\<close> and \<open>G\<close> and any configuration,
  \<open>TreeAligner.__call__\<close> and \<open>struct_iou\<close> return the score
  \<open>2 * best_weight / (n_nodes P + n_nodes G)\<close>, where \<open>best_weight\<close> is the maximum of the
  weight that \<open>align\<close> returns for the two roots and of the best cell of the top-level
  interval dynamic programme, and the score lies between 0 and 1.
\<close>

theorem score_formula:
  "well_formed P \<Longrightarrow> well_formed G \<Longrightarrow>
   \<exists>A w t A' np ng s t' A''.
       TreeAligner_init P G thr flexible = Inr A
     \<and> align A P G default_eps = Inr ((w, t), A')
     \<and> n_nodes P = Inr np \<and> n_nodes G = Inr ng
     \<and> TreeAligner_call A = Inr ((s, t'), A'')
     \<and> struct_iou P G thr flexible = Inr s
     \<and> s = 2 * max w (best_cell (length (eleaves P)) (length (eleaves G))
                        (fold relax_edge (top_edges thr flexible P G) table0))
           / (real np + real ng)
     \<and> 0 \<le> s \<and> s \<le> 1"
proof -
  assume wf: "well_formed P" "well_formed G"
  have wp: "wf_at P 0 1" and wg: "wf_at G 0 1" using wf by (auto simp: well_formed_def)
  let ?np = "node_count P" and ?ng = "node_count G"
  let ?bw = "best_weight thr flexible P G"
  let ?s = "?bw * 2 / (real ?np + real ?ng)"
  have np0: "0 < ?np" using wf_node_count_pos [OF wp] .
  have ng0: "0 < ?ng" using wf_node_count_pos [OF wg] .
  from TreeAligner_init_ok [OF wp wg, of thr flexible] obtain A where
    A: "TreeAligner_init P G thr flexible = Inr A" "memo_ok thr flexible P G A" by blast
  from align_refines [OF wp wg A(2) np0 ng0] obtain t A' where
    al: "align A P G default_eps = Inr ((align_weight thr flexible P G, t), A')"
    unfolding wf_root [OF wp] wf_root [OF wg] by blast
  from TreeAligner_call_ok [OF wp wg A(2)] obtain t' A'' where
    call: "TreeAligner_call A = Inr ((?s, t'), A'')" by blast
  have nP: "n_nodes P = Inr ?np" using wf_n_nodes(1) [OF wp] by simp
  have nG: "n_nodes G = Inr ?ng" using wf_n_nodes(1) [OF wg] by simp
  have si: "struct_iou P G thr flexible = Inr ?s" by (rule struct_iou_refines [OF wf])
  have eq: "?s = 2 * max (align_weight thr flexible P G)
                       (best_cell (length (eleaves P)) (length (eleaves G))
                        (fold relax_edge (top_edges thr flexible P G) table0))
           / (real ?np + real ?ng)"
    by (simp add: best_weight_def)
  have d: "0 < real ?np + real ?ng" using np0 by simp
  have lo: "0 \<le> ?s" using best_weight_nonneg [of thr flexible P G] d by simp
  have "?bw \<le> real (min ?np ?ng)" by (rule best_weight_le [OF wp wg])
  also have "2 * real (min ?np ?ng) \<le> real ?np + real ?ng" by (simp add: min_def)
  finally have "?bw * 2 \<le> real ?np + real ?ng" by simp
  then have hi: "?s \<le> 1" using d by simp
  from A(1) al nP nG call si eq lo hi show ?thesis by blast
qed

theorem score_formula_witness:
  "well_formed (ETree 0 (0, 2) (1, 1) ''A'' [ELeaf ''x''])
   \<and> well_formed (ETree 0 (0, 3) (1, 2) ''B''
        [ETree 1 (0, 1) (1, 1) ''C'' [ELeaf ''y''], ETree 2 (1, 3) (2, 2) ''D'' [ELeaf ''z'']])
   \<and> (\<exists>s. struct_iou (ETree 0 (0, 2) (1, 1) ''A'' [ELeaf ''x''])
              (ETree 0 (0, 3) (1, 2) ''B''
                 [ETree 1 (0, 1) (1, 1) ''C'' [ELeaf ''y''], ETree 2 (1, 3) (2, 2) ''D'' [ELeaf ''z'']])
              0 True = Inr s \<and> 0 \<le> s \<and> s \<le> 1)"
proof -
  let ?P = "ETree 0 (0, 2) (1, 1) ''A'' [ELeaf ''x'']"
  let ?G = "ETree 0 (0, 3) (1, 2) ''B''
        [ETree 1 (0, 1) (1, 1) ''C'' [ELeaf ''y''], ETree 2 (1, 3) (2, 2) ''D'' [ELeaf ''z'']]"
  have h1: "well_formed ?P" by (simp add: well_formed_def)
  have h2: "well_formed ?G" by (simp add: well_formed_def)
  from score_formula [OF h1 h2, of 0 True] h1 h2 show ?thesis by blast
qed

section \<open>The base cases of align\<close>

text \<open>
  Claim C5, as amended.  Let \<open>u\<close> and \<open>v\<close> be nodes of two well-formed trees, with
  indices \<open>i\<close> and \<open>j\<close>, and let the aligner be in a state that \<open>__init__\<close> and earlier
  calls of \<open>align\<close> can leave (\<open>memo_ok\<close>).  Then \<open>align\<close> returns weight 0 and the empty
  trace when the stored span IoU of the pair is strictly below \<open>\<epsilon>\<close> in absolute value
  (\<open>eps_eq iou 0 \<epsilon>\<close>), or both nodes are non-preterminal with different labels, or
  terminal alignment is inflexible and the labels differ; otherwise, if one of the nodes is
  a preterminal, it returns the stored span IoU and the trace \<open>{(i, j)}\<close>.  The stored span
  IoU is the span IoU of the two time ranges, or 0 when that is at or below the threshold.
\<close>

theorem align_base_cases:
  "well_formed P \<Longrightarrow> well_formed G \<Longrightarrow> memo_ok thr flexible P G A
   \<Longrightarrow> i < node_count P \<Longrightarrow> j < node_count G \<Longrightarrow>
   \<exists>iou w t A'.
       np_get (span_ious A) (int i) (int j) = Inr iou
     \<and> iou = (if span_iou (node_time (preorder P ! i)) (node_time (preorder G ! j)) default_eps \<le> thr
              then 0
              else span_iou (node_time (preorder P ! i)) (node_time (preorder G ! j)) default_eps)
     \<and> align A (preorder P ! i) (preorder G ! j) default_eps = Inr ((w, t), A')
     \<and> (if \<bar>iou\<bar> < default_eps
            \<or> (\<not> is_preterminal (preorder P ! i) \<and> \<not> is_preterminal (preorder G ! j)
                \<and> node_label (preorder P ! i) \<noteq> node_label (preorder G ! j))
            \<or> (\<not> flexible \<and> node_label (preorder P ! i) \<noteq> node_label (preorder G ! j))
         then w = 0 \<and> t = {}
         else (is_preterminal (preorder P ! i) \<or> is_preterminal (preorder G ! j)
               \<longrightarrow> w = iou \<and> t = {(i, j)}))"
proof -
  assume wf: "well_formed P" "well_formed G" and ok: "memo_ok thr flexible P G A"
    and i: "i < node_count P" and j: "j < node_count G"
  have wp: "wf_at P 0 1" and wg: "wf_at G 0 1" using wf by (auto simp: well_formed_def)
  let ?u = "preorder P ! i" and ?v = "preorder G ! j"
  let ?iou = "iou_entry thr ?u ?v"
  from ok obtain d where
    sp: "span_ious A = (node_count P, node_count G, d)"
    and dp: "\<forall>i<node_count P. \<forall>j<node_count G. d (i, j) = iou_entry thr (preorder P ! i) (preorder G ! j)"
    unfolding memo_ok_def by blast
  have g: "np_get (span_ious A) (int i) (int j) = Inr ?iou"
    unfolding sp using np_get_ok [of "int i" "node_count P" "int j" "node_count G" d] i j dp by simp
  have e: "?iou = (if span_iou (node_time ?u) (node_time ?v) default_eps \<le> thr then 0
                   else span_iou (node_time ?u) (node_time ?v) default_eps)"
    by (simp add: iou_entry_def Let_def)
  from align_refines [OF wp wg ok i j] obtain t A' where
    al: "align A ?u ?v default_eps = Inr ((align_weight thr flexible ?u ?v, t), A')"
    and st: "simple_trace thr flexible ?u ?v t" by blast
  have iu: "node_index ?u = i" using wf_at_fields(1) [OF wf_nth(1) [OF wp i]] by simp
  have iv: "node_index ?v = j" using wf_at_fields(1) [OF wf_nth(1) [OF wg j]] by simp
  have r: "rejects flexible ?iou ?u ?v \<longleftrightarrow>
        (\<bar>?iou\<bar> < default_eps
            \<or> (\<not> is_preterminal ?u \<and> \<not> is_preterminal ?v \<and> node_label ?u \<noteq> node_label ?v)
            \<or> (\<not> flexible \<and> node_label ?u \<noteq> node_label ?v))"
    by (simp add: rejects_def eps_eq_def)
  have c: "(if \<bar>?iou\<bar> < default_eps
            \<or> (\<not> is_preterminal ?u \<and> \<not> is_preterminal ?v \<and> node_label ?u \<noteq> node_label ?v)
            \<or> (\<not> flexible \<and> node_label ?u \<noteq> node_label ?v)
         then align_weight thr flexible ?u ?v = 0 \<and> t = {}
         else (is_preterminal ?u \<or> is_preterminal ?v
               \<longrightarrow> align_weight thr flexible ?u ?v = ?iou \<and> t = {(i, j)}))"
  proof (cases "rejects flexible ?iou ?u ?v")
    case True
    then have C: "\<bar>?iou\<bar> < default_eps
            \<or> (\<not> is_preterminal ?u \<and> \<not> is_preterminal ?v \<and> node_label ?u \<noteq> node_label ?v)
            \<or> (\<not> flexible \<and> node_label ?u \<noteq> node_label ?v)" using r by blast
    have "align_weight thr flexible ?u ?v = 0" using True by (subst align_weight_edges) simp
    moreover have "t = {}" using st True by (simp add: simple_trace_def)
    ultimately show ?thesis unfolding if_P [OF C] by blast
  next
    case False
    then have nC: "\<not> (\<bar>?iou\<bar> < default_eps
            \<or> (\<not> is_preterminal ?u \<and> \<not> is_preterminal ?v \<and> node_label ?u \<noteq> node_label ?v)
            \<or> (\<not> flexible \<and> node_label ?u \<noteq> node_label ?v))" using r by blast
    have "align_weight thr flexible ?u ?v = ?iou \<and> t = {(i, j)}"
      if "is_preterminal ?u \<or> is_preterminal ?v"
    proof -
      have "align_weight thr flexible ?u ?v = ?iou"
        using False that by (subst align_weight_edges) (simp add: Let_def)
      moreover have "t = {(i, j)}" using st False that by (simp add: simple_trace_def iu iv)
      ultimately show ?thesis by simp
    qed
    then show ?thesis unfolding if_not_P [OF nC] by blast
  qed
  from g e al c show ?thesis by blast
qed

theorem align_base_cases_witness:
  "well_formed (ETree 0 (0, 2) (1, 1) ''A'' [ELeaf ''x''])
   \<and> well_formed (ETree 0 (0, 3) (1, 1) ''B'' [ELeaf ''y''])
   \<and> (\<exists>A. TreeAligner_init (ETree 0 (0, 2) (1, 1) ''A'' [ELeaf ''x''])
              (ETree 0 (0, 3) (1, 1) ''B'' [ELeaf ''y'']) 0 True = Inr A
          \<and> memo_ok 0 True (ETree 0 (0, 2) (1, 1) ''A'' [ELeaf ''x''])
              (ETree 0 (0, 3) (1, 1) ''B'' [ELeaf ''y'']) A
          \<and> (\<exists>A'. align A (ETree 0 (0, 2) (1, 1) ''A'' [ELeaf ''x''])
                     (ETree 0 (0, 3) (1, 1) ''B'' [ELeaf ''y'']) default_eps
                   = Inr ((2 / 3, {(0, 0)}), A')))"
proof -
  let ?P = "ETree 0 (0, 2) (1, 1) ''A'' [ELeaf ''x'']"
  let ?G = "ETree 0 (0, 3) (1, 1) ''B'' [ELeaf ''y'']"
  have h1: "well_formed ?P" by (simp add: well_formed_def)
  have h2: "well_formed ?G" by (simp add: well_formed_def)
  have wp: "wf_at ?P 0 1" and wg: "wf_at ?G 0 1" using h1 h2 by (auto simp: well_formed_def)
  from TreeAligner_init_ok [OF wp wg, of 0 True] obtain A where
    A: "TreeAligner_init ?P ?G 0 True = Inr A" "memo_ok 0 True ?P ?G A" by blast
  have h4: "0 < node_count ?P" and h5: "0 < node_count ?G" by simp_all
  have s: "span_iou (0, 2) (0, 3) default_eps = 2 / 3"
    by (simp add: span_iou_def span_intersection_def span_union_def default_eps_def)
  from align_base_cases [OF h1 h2 A(2) h4 h5]
  have "\<exists>A'. align A ?P ?G default_eps = Inr ((2 / 3, {(0, 0)}), A')"
    by (auto simp: s split: if_splits simp del: align.simps) (simp_all add: default_eps_def)
  with h1 h2 A show ?thesis by blast
qed

text \<open>
  The claim as stated, with "span IoU \<open>\<le> \<epsilon>\<close>", fails when the span IoU is exactly \<open>\<epsilon>\<close>:
  for the time ranges \<open>(0, 1)\<close> and \<open>(0, 1000000)\<close> it is \<open>1e-6\<close>, and \<open>align\<close> on the
  freshly initialised aligner returns the weight \<open>1e-6\<close> and the trace \<open>{(0, 0)}\<close>,
  not weight 0 and the empty trace.
\<close>

theorem align_base_cases_counterexample:
  "span_iou (0, 1) (0, 1000000) default_eps \<le> default_eps
   \<and> (case TreeAligner_init (ETree 0 (0, 1) (1, 1) ''A'' [ELeaf ''x''])
              (ETree 0 (0, 1000000) (1, 1) ''A'' [ELeaf ''y'']) 0 True of
        Inl e \<Rightarrow> None
      | Inr A \<Rightarrow>
          (case align A (ETree 0 (0, 1) (1, 1) ''A'' [ELeaf ''x''])
                  (ETree 0 (0, 1000000) (1, 1) ''A'' [ELeaf ''y'']) default_eps of
             Inl e \<Rightarrow> None
           | Inr (r, A') \<Rightarrow> Some r))
     = Some (1 / 1000000, {(0, 0)})"
proof -
  let ?P = "ETree 0 (0, 1) (1, 1) ''A'' [ELeaf ''x'']"
  let ?G = "ETree 0 (0, 1000000) (1, 1) ''A'' [ELeaf ''y'']"
  have wp: "wf_at ?P 0 1" and wg: "wf_at ?G 0 1" by simp_all
  have s: "span_iou (0, 1) (0, 1000000) default_eps = 1 / 1000000"
    by (simp add: span_iou_def span_intersection_def span_union_def default_eps_def)
  from TreeAligner_init_ok [OF wp wg, of 0 True] obtain A where
    A: "TreeAligner_init ?P ?G 0 True = Inr A" "memo_ok 0 True ?P ?G A" by blast
  have i: "0 < node_count ?P" and j: "0 < node_count ?G" by simp_all
  from align_refines [OF wp wg A(2) i j] obtain t A' where
    al: "align A ?P ?G default_eps = Inr ((align_weight 0 True ?P ?G, t), A')"
    and st: "simple_trace 0 True ?P ?G t" by auto
  have io: "iou_entry 0 ?P ?G = 1 / 1000000" by (simp add: iou_entry_def s)
  have nr: "\<not> rejects True (iou_entry 0 ?P ?G) ?P ?G"
    by (simp add: rejects_def io eps_eq_def default_eps_def)
  have w: "align_weight 0 True ?P ?G = 1 / 1000000"
    using nr by (subst align_weight_edges) (simp add: Let_def io)
  have t: "t = {(0, 0)}" using st nr by (simp add: simple_trace_def)
  show ?thesis using s A(1) al w t by (simp add: default_eps_def)
qed

section \<open>Symmetry of the score\<close>

lemma swap_image: "prod.swap ` (A \<times> B) = B \<times> A"
  by auto

lemma relax_edge_transpose:
  "relax_edge (tr_edge e) (M \<circ> prod.swap) = relax_edge e M \<circ> prod.swap"
proof -
  obtain a b c d w where e: "e = ((a, b), (c, d), w)" by (cases e) auto
  have "(M \<circ> prod.swap) ` ({..<b} \<times> {..<a}) = M ` ({..<a} \<times> {..<b})"
    unfolding image_comp [symmetric] swap_image ..
  then show ?thesis
    by (auto simp: e tr_edge_def relax_edge_def fun_eq_iff)
qed

lemma fold_relax_transpose:
  "fold relax_edge (map tr_edge es) (M \<circ> prod.swap) = fold relax_edge es M \<circ> prod.swap"
  by (induction es arbitrary: M) (simp_all add: relax_edge_transpose)

lemma table0_swap: "table0 \<circ> prod.swap = table0"
  by (auto simp: table0_def fun_eq_iff)

lemma best_cell_swap: "best_cell n m (M \<circ> prod.swap) = best_cell m n M"
proof -
  have "(M \<circ> prod.swap) ` ({..n} \<times> {..m}) = M ` ({..m} \<times> {..n})"
    unfolding image_comp [symmetric] swap_image ..
  then show ?thesis by (simp add: best_cell_def)
qed

lemma ordered_append:
  "ordered (xs @ ys) \<longleftrightarrow> ordered xs \<and> ordered ys \<and> (\<forall>e\<in>set xs. \<forall>e'\<in>set ys. nosrc e e')"
  by (induction xs) auto

lemma ordered_all: "(\<forall>e\<in>set es. \<forall>e'\<in>set es. nosrc e e') \<Longrightarrow> ordered es"
  by (induction es) auto

lemma ordered_product:
  assumes "sorted_wrt (\<lambda>a a'. \<forall>b b'. nosrc (f (a, b)) (f (a', b'))) xs"
    and "\<forall>a\<in>set xs. \<forall>b b'. nosrc (f (a, b)) (f (a, b'))"
  shows "ordered (map f (List.product xs ys))"
  using assms
proof (induction xs)
  case Nil
  then show ?case by simp
next
  case (Cons x xs)
  have 1: "ordered (map f (map (Pair x) ys))"
    using Cons.prems(2) by (intro ordered_all) auto
  have 2: "ordered (map f (List.product xs ys))"
    using Cons.prems by (intro Cons.IH) auto
  have 3: "\<forall>e\<in>set (map f (map (Pair x) ys)). \<forall>e'\<in>set (map f (List.product xs ys)). nosrc e e'"
    using Cons.prems(1) by auto
  show ?case using 1 2 3 by (simp add: ordered_append)
qed

lemma ordered_map_filter: "ordered (map f xs) \<Longrightarrow> ordered (map f (filter p xs))"
  by (induction xs) auto

lemma span_iou_commute: "span_iou a b eps = span_iou b a eps"
  by (simp add: span_iou_def span_intersection_def span_union_def Let_def min.commute max.commute)

lemma iou_entry_commute: "iou_entry thr u v = iou_entry thr v u"
  by (simp add: iou_entry_def span_iou_commute [of "node_time u"])

lemma rejects_commute: "rejects flexible iou u v = rejects flexible iou v u"
  by (auto simp: rejects_def)

text \<open>In the pre-order of a well-formed tree the leaf ranges start further and further right.\<close>

lemma wf_left_sorted:
  "wf_at T i l \<Longrightarrow>
     sorted (map (\<lambda>x. fst (node_leaf_range x)) (preorder T))
     \<and> (\<forall>x\<in>set (preorder T). l \<le> fst (node_leaf_range x)
                                \<and> fst (node_leaf_range x) < l + int (length (eleaves T)))"
  "wf_children_at cs i l \<Longrightarrow>
     sorted (map (\<lambda>x. fst (node_leaf_range x)) (concat (map preorder cs)))
     \<and> (\<forall>x\<in>set (concat (map preorder cs)). l \<le> fst (node_leaf_range x)
            \<and> fst (node_leaf_range x) < l + int (length (concat (map eleaves cs))))"
proof (induction T i l and cs i l rule: wf_at_wf_children_at.induct)
  case (1 s i l)
  then show ?case by simp
next
  case (2 i' tr lr lab cs i l)
  let ?T = "ETree i' tr lr lab cs"
  have lr: "fst lr = l" using "2.prems" by auto
  have pos: "0 < length (eleaves ?T)" using wf_leaves_pos(1) [OF "2.prems"] .
  show ?case
  proof (cases "is_preterminal ?T")
    case True
    then show ?thesis using lr by (auto simp: is_preterminal_iff)
  next
    case False
    with "2.prems" have w: "wf_children_at cs (i + 1) l" by auto
    from "2.IH" [OF w] lr pos show ?thesis by auto
  qed
next
  case (3 i l)
  then show ?case by simp
next
  case (4 c cs i l)
  from "4.prems" have wc: "wf_at c i l"
    and wcs: "wf_children_at cs (i + node_count c) (l + int (length (eleaves c)))" by auto
  note a = "4.IH"(1) [OF wc] and b = "4.IH"(2) [OF wcs]
  have "\<forall>x\<in>set (preorder c). \<forall>y\<in>set (concat (map preorder cs)).
          fst (node_leaf_range x) \<le> fst (node_leaf_range y)"
    using a b by fastforce
  moreover have "\<forall>x\<in>set (concat (map preorder (c # cs))). l \<le> fst (node_leaf_range x)
            \<and> fst (node_leaf_range x) < l + int (length (concat (map eleaves (c # cs))))"
    using a b by fastforce
  ultimately show ?case using a b by (simp add: sorted_append)
qed

lemma wf_forward:
  assumes w: "wf_at u i l"
  shows "sorted_wrt (\<lambda>x x'. \<not> snd (local_range u x') < fst (local_range u x)) (drop k0 (preorder u))"
proof -
  have "\<not> snd (local_range u (preorder u ! b)) < fst (local_range u (preorder u ! a))"
    if ab: "a \<le> b" "b < node_count u" for a b
  proof -
    have a: "a < node_count u" using ab by simp
    have "sorted (map (\<lambda>x. fst (node_leaf_range x)) (preorder u))"
      using wf_left_sorted(1) [OF w] by blast
    then have "fst (node_leaf_range (preorder u ! a)) \<le> fst (node_leaf_range (preorder u ! b))"
      using ab sorted_nth_mono [of "map (\<lambda>x. fst (node_leaf_range x)) (preorder u)" a b]
      by (simp add: length_preorder)
    moreover note wf_nth_range(1,2) [OF w ab(2)] wf_nth_range(1) [OF w a]
    ultimately show ?thesis unfolding local_range_def fst_conv snd_conv by linarith
  qed
  then show ?thesis
    by (auto simp: sorted_wrt_iff_nth_less length_preorder)
qed

lemma nosrc_pair_edge:
  "nosrc (pair_edge fp fg w a b) (pair_edge fp fg w' a' b')
     \<longleftrightarrow> \<not> (snd (fp a') < fst (fp a) \<and> snd (fg b') < fst (fg b))"
  by (simp add: nosrc_def pair_edge_def)

lemma tr_pair_edge: "tr_edge (pair_edge fp fg w a b) = pair_edge fg fp w b a"
  by (simp add: tr_edge_def pair_edge_def)

lemma wf_forward_self:
  assumes w: "wf_at u i l" and x: "x \<in> set (preorder u)"
  shows "\<not> snd (local_range u x) < fst (local_range u x)"
proof -
  from x obtain k where k: "k < node_count u" "x = preorder u ! k"
    by (auto simp: in_set_conv_nth length_preorder)
  from wf_nth(3) [OF w k(1)] k(2) show ?thesis by simp
qed

lemma ordered_pairs_left:
  assumes w: "wf_at u i l" and s: "set xs \<subseteq> set (preorder u)"
    and f: "sorted_wrt (\<lambda>x x'. \<not> snd (local_range u x') < fst (local_range u x)) xs"
  shows "ordered (map (\<lambda>(a, b). pair_edge (local_range u) fg (W a b) a b) (List.product xs ys))"
proof (rule ordered_product)
  show "sorted_wrt (\<lambda>a a'. \<forall>b b'. nosrc (case (a, b) of (a, b) \<Rightarrow> pair_edge (local_range u) fg (W a b) a b)
           (case (a', b') of (a, b) \<Rightarrow> pair_edge (local_range u) fg (W a b) a b)) xs"
    using f by (rule sorted_wrt_mono_rel [rotated]) (simp add: nosrc_pair_edge)
  show "\<forall>a\<in>set xs. \<forall>b b'. nosrc (case (a, b) of (a, b) \<Rightarrow> pair_edge (local_range u) fg (W a b) a b)
           (case (a, b') of (a, b) \<Rightarrow> pair_edge (local_range u) fg (W a b) a b)"
    using wf_forward_self [OF w] s by (auto simp: nosrc_pair_edge)
qed

lemma ordered_pairs_right:
  assumes w: "wf_at v j l" and s: "set ys \<subseteq> set (preorder v)"
    and f: "sorted_wrt (\<lambda>x x'. \<not> snd (local_range v x') < fst (local_range v x)) ys"
  shows "ordered (map (\<lambda>(b, a). pair_edge fp (local_range v) (W a b) a b) (List.product ys xs))"
proof (rule ordered_product)
  show "sorted_wrt (\<lambda>a a'. \<forall>b b'. nosrc (case (a, b) of (b, a) \<Rightarrow> pair_edge fp (local_range v) (W a b) a b)
           (case (a', b') of (b, a) \<Rightarrow> pair_edge fp (local_range v) (W a b) a b)) ys"
    using f by (rule sorted_wrt_mono_rel [rotated]) (simp add: nosrc_pair_edge)
  show "\<forall>a\<in>set ys. \<forall>b b'. nosrc (case (a, b) of (b, a) \<Rightarrow> pair_edge fp (local_range v) (W a b) a b)
           (case (a, b') of (b, a) \<Rightarrow> pair_edge fp (local_range v) (W a b) a b)"
    using wf_forward_self [OF w] s by (auto simp: nosrc_pair_edge)
qed

text \<open>
  The table of the pairs \<open>xs \<times> ys\<close> of nodes of two well-formed trees, filled in the order of
  the loops, is the transpose of the table filled with the two trees exchanged, provided the
  weights of the pairs agree.
\<close>

lemma fold_pairs_transpose:
  assumes wu: "wf_at u i l" and wv: "wf_at v j l'"
    and su: "set xs \<subseteq> set (preorder u)" and sv: "set ys \<subseteq> set (preorder v)"
    and fu: "sorted_wrt (\<lambda>x x'. \<not> snd (local_range u x') < fst (local_range u x)) xs"
    and fv: "sorted_wrt (\<lambda>x x'. \<not> snd (local_range v x') < fst (local_range v x)) ys"
    and W: "\<And>a b. a \<in> set xs \<Longrightarrow> b \<in> set ys \<Longrightarrow> W' b a = W a b"
  shows "fold relax_edge
           (map (\<lambda>(b, a). pair_edge (local_range v) (local_range u) (W' b a) b a)
              (filter (\<lambda>(b, a). p a b) (List.product ys xs))) table0
         = fold relax_edge
             (map (\<lambda>(a, b). pair_edge (local_range u) (local_range v) (W a b) a b)
                (filter (\<lambda>(a, b). p a b) (List.product xs ys))) table0 \<circ> prod.swap"
proof -
  let ?f = "\<lambda>(a, b). pair_edge (local_range u) (local_range v) (W a b) a b"
  let ?g = "\<lambda>(b, a). pair_edge (local_range u) (local_range v) (W a b) a b"
  let ?h = "\<lambda>(b, a). pair_edge (local_range v) (local_range u) (W' b a) b a"
  let ?L = "filter (\<lambda>(a, b). p a b) (List.product xs ys)"
  let ?R = "filter (\<lambda>(b, a). p a b) (List.product ys xs)"
  have h: "map ?h ?R = map tr_edge (map ?g ?R)"
    using W by (auto simp: tr_pair_edge)
  have o1: "ordered (map ?f ?L)"
    by (rule ordered_map_filter) (rule ordered_pairs_left [OF wu su fu])
  have o2: "ordered (map ?g ?R)"
    by (rule ordered_map_filter) (rule ordered_pairs_right [OF wv sv fv])
  have s: "set (map ?f ?L) = set (map ?g ?R)"
    by (auto simp: image_iff) force+
  have "fold relax_edge (map ?h ?R) table0
        = fold relax_edge (map tr_edge (map ?g ?R)) (table0 \<circ> prod.swap)"
    by (simp only: h table0_swap)
  also have "\<dots> = fold relax_edge (map ?g ?R) table0 \<circ> prod.swap"
    by (rule fold_relax_transpose)
  also have "fold relax_edge (map ?g ?R) table0 = fold relax_edge (map ?f ?L) table0"
    by (rule fold_relax_order_irrelevant [OF o2 o1 s [symmetric]])
  finally show ?thesis .
qed

lemma align_weight_commute:
  "wf_at u i l \<Longrightarrow> wf_at v j l' \<Longrightarrow> align_weight thr flexible v u = align_weight thr flexible u v"
proof (induction "size u" arbitrary: u v i j l l' rule: less_induct)
  case less
  note wu = less.prems(1) and wv = less.prems(2)
  have W: "align_weight thr flexible b a = align_weight thr flexible a b"
    if a: "a \<in> set (tl (preorder u))" and b: "b \<in> set (tl (preorder v))" for a b
  proof -
    from in_tl_nth [OF a] obtain k where k: "k < node_count u" "a = preorder u ! k"
      by (auto simp: length_preorder)
    from in_tl_nth [OF b] obtain m where m: "m < node_count v" "b = preorder v ! m"
      by (auto simp: length_preorder)
    have wa: "wf_at a (i + k) (fst (node_leaf_range a))"
      using wf_nth(1) [OF wu k(1)] k(2) by simp
    have wb: "wf_at b (j + m) (fst (node_leaf_range b))"
      using wf_nth(1) [OF wv m(1)] m(2) by simp
    show ?thesis by (rule less.hyps [OF preorder_tl_size [OF a] wa wb])
  qed
  have su: "set (tl (preorder u)) \<subseteq> set (preorder u)" by (cases "preorder u") auto
  have sv: "set (tl (preorder v)) \<subseteq> set (preorder v)" by (cases "preorder v") auto
  have fu: "sorted_wrt (\<lambda>x x'. \<not> snd (local_range u x') < fst (local_range u x)) (tl (preorder u))"
    using wf_forward [OF wu, of 1] by (simp add: drop_Suc)
  have fv: "sorted_wrt (\<lambda>x x'. \<not> snd (local_range v x') < fst (local_range v x)) (tl (preorder v))"
    using wf_forward [OF wv, of 1] by (simp add: drop_Suc)
  have "fold relax_edge (align_edges thr flexible v u) table0
        = fold relax_edge (align_edges thr flexible u v) table0 \<circ> prod.swap"
    using fold_pairs_transpose [OF wu wv su sv fu fv W, where p = "\<lambda>a b. True"]
    by (simp add: align_edges_def)
  then have "best_cell (length (eleaves v)) (length (eleaves u))
               (fold relax_edge (align_edges thr flexible v u) table0)
             = best_cell (length (eleaves u)) (length (eleaves v))
               (fold relax_edge (align_edges thr flexible u v) table0)"
    by (simp add: best_cell_swap)
  then show ?case
    unfolding align_weight_edges [of thr flexible v u] align_weight_edges [of thr flexible u v]
    by (simp add: Let_def iou_entry_commute [of thr v u] rejects_commute [of flexible _ v u] disj_commute)
qed

lemma best_weight_commute:
  assumes wp: "wf_at p 0 l" and wg: "wf_at g 0 l'"
  shows "best_weight thr flexible g p = best_weight thr flexible p g"
proof -
  have W: "align_weight thr flexible b a = align_weight thr flexible a b"
    if a: "a \<in> set (preorder p)" and b: "b \<in> set (preorder g)" for a b
  proof -
    from a obtain k where k: "k < node_count p" "a = preorder p ! k"
      by (auto simp: in_set_conv_nth length_preorder)
    from b obtain m where m: "m < node_count g" "b = preorder g ! m"
      by (auto simp: in_set_conv_nth length_preorder)
    have wa: "wf_at a (0 + k) (fst (node_leaf_range a))"
      using wf_nth(1) [OF wp k(1)] k(2) by simp
    have wb: "wf_at b (0 + m) (fst (node_leaf_range b))"
      using wf_nth(1) [OF wg m(1)] m(2) by simp
    show ?thesis by (rule align_weight_commute [OF wa wb])
  qed
  have fp: "sorted_wrt (\<lambda>x x'. \<not> snd (local_range p x') < fst (local_range p x)) (preorder p)"
    using wf_forward [OF wp, of 0] by simp
  have fg: "sorted_wrt (\<lambda>x x'. \<not> snd (local_range g x') < fst (local_range g x)) (preorder g)"
    using wf_forward [OF wg, of 0] by simp
  have "fold relax_edge (top_edges thr flexible g p) table0
        = fold relax_edge (top_edges thr flexible p g) table0 \<circ> prod.swap"
    using fold_pairs_transpose [OF wp wg subset_refl subset_refl fp fg W,
            where p = "\<lambda>a b. \<not> (node_index a = 0 \<and> node_index b = 0)"]
    by (simp add: top_edges_def conj_commute)
  then have "best_cell (length (eleaves g)) (length (eleaves p))
               (fold relax_edge (top_edges thr flexible g p) table0)
             = best_cell (length (eleaves p)) (length (eleaves g))
               (fold relax_edge (top_edges thr flexible p g) table0)"
    by (simp add: best_cell_swap)
  then show ?thesis
    by (simp add: best_weight_def align_weight_commute [OF wp wg])
qed

text \<open>
  Claim C3.  The score is symmetric: for two well-formed annotated trees and any
  configuration, \<open>struct_iou\<close> returns a score, and it returns the same score when the two
  trees are exchanged.
\<close>

theorem score_symmetric:
  "well_formed P \<Longrightarrow> well_formed G \<Longrightarrow>
   \<exists>s. struct_iou P G thr flexible = Inr s \<and> struct_iou G P thr flexible = Inr s"
proof -
  assume wf: "well_formed P" "well_formed G"
  have wp: "wf_at P 0 1" and wg: "wf_at G 0 1" using wf by (auto simp: well_formed_def)
  show ?thesis
    unfolding struct_iou_refines [OF wf] struct_iou_refines [OF wf(2,1)]
    by (simp add: best_weight_commute [OF wp wg] add.commute)
qed

theorem score_symmetric_witness:
  "well_formed (ETree 0 (0, 2) (1, 1) ''A'' [ELeaf ''x''])
   \<and> well_formed (ETree 0 (0, 3) (1, 2) ''B''
        [ETree 1 (0, 1) (1, 1) ''C'' [ELeaf ''y''], ETree 2 (1, 3) (2, 2) ''D'' [ELeaf ''z'']])
   \<and> (\<exists>s. struct_iou (ETree 0 (0, 2) (1, 1) ''A'' [ELeaf ''x''])
              (ETree 0 (0, 3) (1, 2) ''B''
                 [ETree 1 (0, 1) (1, 1) ''C'' [ELeaf ''y''], ETree 2 (1, 3) (2, 2) ''D'' [ELeaf ''z'']])
              0 True = Inr s
          \<and> struct_iou (ETree 0 (0, 3) (1, 2) ''B''
                 [ETree 1 (0, 1) (1, 1) ''C'' [ELeaf ''y''], ETree 2 (1, 3) (2, 2) ''D'' [ELeaf ''z'']])
              (ETree 0 (0, 2) (1, 1) ''A'' [ELeaf ''x'']) 0 True = Inr s)"
proof -
  let ?P = "ETree 0 (0, 2) (1, 1) ''A'' [ELeaf ''x'']"
  let ?G = "ETree 0 (0, 3) (1, 2) ''B''
        [ETree 1 (0, 1) (1, 1) ''C'' [ELeaf ''y''], ETree 2 (1, 3) (2, 2) ''D'' [ELeaf ''z'']]"
  have h1: "well_formed ?P" by (simp add: well_formed_def)
  have h2: "well_formed ?G" by (simp add: well_formed_def)
  from score_symmetric [OF h1 h2, of 0 True] h1 h2 show ?thesis by blast
qed

section \<open>The score of a tree against itself\<close>

lemma span_iou_self:
  "eps \<le> snd s - fst s \<Longrightarrow> 0 < eps \<Longrightarrow> span_iou s s eps = 1"
  by (simp add: span_iou_def span_intersection_def span_union_def Let_def)

lemma span_iou_narrow:
  "snd s - fst s < eps \<Longrightarrow> span_iou s s eps = 0"
  by (simp add: span_iou_def span_intersection_def span_union_def Let_def)

lemma iou_entry_self:
  "default_eps \<le> snd (node_time u) - fst (node_time u) \<Longrightarrow> thr < 1 \<Longrightarrow> iou_entry thr u u = 1"
  by (simp add: iou_entry_def Let_def span_iou_self default_eps_pos)

lemma rejects_self: "\<not> rejects flexible 1 u u"
  by (simp add: rejects_def eps_eq_def default_eps_def)

lemma align_edges_ordered:
  assumes w: "wf_at u i l"
  shows "ordered (align_edges thr flexible u v)"
proof -
  have su: "set (tl (preorder u)) \<subseteq> set (preorder u)" by (cases "preorder u") auto
  have fu: "sorted_wrt (\<lambda>x x'. \<not> snd (local_range u x') < fst (local_range u x)) (tl (preorder u))"
    using wf_forward [OF w, of 1] by (simp add: drop_Suc)
  show ?thesis unfolding align_edges_def by (rule ordered_pairs_left [OF w su fu])
qed

lemma wf_children_member:
  "wf_children_at cs i l \<Longrightarrow> c \<in> set cs \<Longrightarrow> \<exists>i' l'. wf_at c i' l'"
proof (induction cs arbitrary: i l)
  case Nil
  then show ?case by simp
next
  case (Cons a cs)
  then show ?case by auto
qed

lemma wf_self_preorder: "wf_at c i l \<Longrightarrow> c \<in> set (preorder c)"
  by (cases c) auto

text \<open>
  Along the children of a node, the diagonal of a table that is closed under the edges of
  the pairs (child, child) grows by the weight of each pair.
\<close>

lemma children_chain:
  assumes "wf_children_at cs i' l'" and "l \<le> l'"
    and "\<forall>c\<in>set cs. edge_closed F (pair_edge (local_range u) (local_range u) (w c) c c)
                     \<and> real (node_count c) \<le> w c"
    and "B \<le> F (nat (l' - l), nat (l' - l))"
    and "fst (node_leaf_range u) = l"
  shows "B + real (sum_list (map node_count cs))
         \<le> F (nat (l' + int (length (concat (map eleaves cs))) - l),
               nat (l' + int (length (concat (map eleaves cs))) - l))"
  using assms(1,2,3,4)
proof (induction cs arbitrary: i' l' B)
  case Nil
  then show ?case by simp
next
  case (Cons c cs)
  from Cons.prems(1) have wc: "wf_at c i' l'"
    and wcs: "wf_children_at cs (i' + node_count c) (l' + int (length (eleaves c)))" by auto
  have lc: "node_leaf_range c = (l', l' + int (length (eleaves c)) - 1)"
    using wf_at_fields(2) [OF wc] .
  let ?n = "int (length (eleaves c))"
  have loc: "local_range u c = (nat (l' - l + 1), nat (l' + ?n - l))"
    by (simp add: local_range_def lc assms(5) algebra_simps)
  from Cons.prems(3) have cl: "edge_closed F (pair_edge (local_range u) (local_range u) (w c) c c)"
    and wc': "real (node_count c) \<le> w c" by auto
  have lt: "nat (l' - l) < nat (l' - l + 1)" using Cons.prems(2) by simp
  from cl lt have "F (nat (l' - l), nat (l' - l)) + w c \<le> F (nat (l' + ?n - l), nat (l' + ?n - l))"
    unfolding edge_closed_def pair_edge_def loc fst_conv snd_conv prod.case by blast
  with Cons.prems(4) wc' have B': "B + real (node_count c)
       \<le> F (nat (l' + ?n - l), nat (l' + ?n - l))" by linarith
  have l2: "l \<le> l' + ?n" using Cons.prems(2) by simp
  have rest: "\<forall>c\<in>set cs. edge_closed F (pair_edge (local_range u) (local_range u) (w c) c c)
                     \<and> real (node_count c) \<le> w c" using Cons.prems(3) by simp
  from Cons.IH [OF wcs l2 rest B']
  show ?case by (simp add: algebra_simps)
qed

lemma align_weight_self_ge:
  "wf_at u i l \<Longrightarrow> full_width u \<Longrightarrow> thr < 1 \<Longrightarrow>
   real (node_count u) \<le> align_weight thr flexible u u"
proof (induction "size u" arbitrary: u i l rule: less_induct)
  case less
  note wu = less.prems(1) and fw = less.prems(2) and thr = less.prems(3)
  from wu obtain i' tr lr lab cs where u: "u = ETree i' tr lr lab cs" by (cases u) auto
  have "u \<in> set (preorder u)" by (rule wf_self_preorder [OF wu])
  with fw have "default_eps \<le> snd (node_time u) - fst (node_time u)"
    by (simp add: full_width_def list_all_iff)
  then have iou: "iou_entry thr u u = 1" using thr by (rule iou_entry_self)
  show ?case
  proof (cases "is_preterminal u")
    case True
    then have "node_count u = 1" by (auto simp: is_preterminal_iff)
    then show ?thesis
      by (subst align_weight_edges) (simp add: iou rejects_self True)
  next
    case False
    with wu u have wcs: "wf_children_at cs (i + 1) l" by auto
    let ?F = "fold relax_edge (align_edges thr flexible u u) table0"
    let ?w = "\<lambda>c. align_weight thr flexible c c"
    have lu: "fst (node_leaf_range u) = l" using wf_at_fields(2) [OF wu] by simp
    have tl: "tl (preorder u) = concat (map preorder cs)" by (simp add: u)
    have ch: "edge_closed ?F (pair_edge (local_range u) (local_range u) (?w c) c c)
              \<and> real (node_count c) \<le> ?w c" if c: "c \<in> set cs" for c
    proof
      from wf_children_member [OF wcs c] obtain ic lc where wc: "wf_at c ic lc" by blast
      have cin: "c \<in> set (tl (preorder u))"
        using wf_self_preorder [OF wc] c unfolding tl by auto
      then have "pair_edge (local_range u) (local_range u) (?w c) c c
               \<in> set (align_edges thr flexible u u)"
        unfolding align_edges_def by force
      then show "edge_closed ?F (pair_edge (local_range u) (local_range u) (?w c) c c)"
        by (rule fold_relax_closed [OF align_edges_ordered [OF wu]])
      have "set (preorder c) \<subseteq> set (preorder u)" using c by (auto simp: u)
      with fw have fc: "full_width c" by (auto simp: full_width_def list_all_iff)
      have "size c < size u" unfolding u by (rule size_child_less [OF c])
      then show "real (node_count c) \<le> ?w c" using wc fc thr by (rule less.hyps)
    qed
    have z: "0 \<le> ?F (nat (l - l), nat (l - l))" using fold_table0_origin by simp
    have ch': "\<forall>c\<in>set cs. edge_closed ?F (pair_edge (local_range u) (local_range u) (?w c) c c)
                     \<and> real (node_count c) \<le> ?w c" using ch by blast
    have ll: "l \<le> l" by simp
    from children_chain [OF wcs ll ch' z lu]
    have "real (sum_list (map node_count cs))
          \<le> ?F (nat (int (length (concat (map eleaves cs)))), nat (int (length (concat (map eleaves cs)))))"
      by simp
    also have "\<dots> = ?F (length (eleaves u), length (eleaves u))" by (simp add: u)
    also have "\<dots> \<le> best_cell (length (eleaves u)) (length (eleaves u)) ?F"
      by (rule best_cell_ge) simp_all
    finally have "real (node_count u) \<le> 1 + best_cell (length (eleaves u)) (length (eleaves u)) ?F"
      by (simp add: u)
    then show ?thesis
      by (subst align_weight_edges) (simp add: iou rejects_self False)
  qed
qed

lemma best_cell_table0: "best_cell n m table0 = 0"
  unfolding best_cell_def
proof (rule Max_eqI)
  show "finite (table0 ` ({..n} \<times> {..m}))" by simp
  show "\<And>y. y \<in> table0 ` ({..n} \<times> {..m}) \<Longrightarrow> y \<le> 0" by (auto simp: table0_def)
  have "table0 (0, 0) \<in> table0 ` ({..n} \<times> {..m})" by (rule imageI) simp
  then show "0 \<in> table0 ` ({..n} \<times> {..m})" by (simp add: table0_origin)
qed

text \<open>
  Claim C2, as amended.  A well-formed annotated tree whose every node has a time range at
  least \<open>\<epsilon>\<close> wide, compared with itself under a threshold below 1, has score 1.
\<close>

theorem self_score:
  "well_formed T \<Longrightarrow> full_width T \<Longrightarrow> thr < 1 \<Longrightarrow> struct_iou T T thr flexible = Inr 1"
proof -
  assume wf: "well_formed T" and fw: "full_width T" and thr: "thr < 1"
  have wt: "wf_at T 0 1" using wf by (simp add: well_formed_def)
  have n0: "0 < node_count T" using wf_node_count_pos [OF wt] .
  have "real (node_count T) \<le> align_weight thr flexible T T"
    using wt fw thr by (rule align_weight_self_ge)
  then have "real (node_count T) \<le> best_weight thr flexible T T" by (simp add: best_weight_def)
  moreover have "best_weight thr flexible T T \<le> real (node_count T)"
    using best_weight_le [OF wt wt, of thr flexible] by simp
  ultimately have "best_weight thr flexible T T = real (node_count T)" by simp
  then show ?thesis unfolding struct_iou_refines [OF wf wf] using n0 by simp
qed

theorem self_score_witness:
  "well_formed (ETree 0 (0, 3) (1, 2) ''B''
        [ETree 1 (0, 1) (1, 1) ''C'' [ELeaf ''y''], ETree 2 (1, 3) (2, 2) ''D'' [ELeaf ''z'']])
   \<and> full_width (ETree 0 (0, 3) (1, 2) ''B''
        [ETree 1 (0, 1) (1, 1) ''C'' [ELeaf ''y''], ETree 2 (1, 3) (2, 2) ''D'' [ELeaf ''z'']])
   \<and> (0 :: real) < 1
   \<and> struct_iou (ETree 0 (0, 3) (1, 2) ''B''
        [ETree 1 (0, 1) (1, 1) ''C'' [ELeaf ''y''], ETree 2 (1, 3) (2, 2) ''D'' [ELeaf ''z'']])
       (ETree 0 (0, 3) (1, 2) ''B''
        [ETree 1 (0, 1) (1, 1) ''C'' [ELeaf ''y''], ETree 2 (1, 3) (2, 2) ''D'' [ELeaf ''z'']])
       0 True = Inr 1"
proof -
  let ?G = "ETree 0 (0, 3) (1, 2) ''B''
        [ETree 1 (0, 1) (1, 1) ''C'' [ELeaf ''y''], ETree 2 (1, 3) (2, 2) ''D'' [ELeaf ''z'']]"
  have h1: "well_formed ?G" by (simp add: well_formed_def)
  have h2: "full_width ?G" by (simp add: full_width_def default_eps_def)
  have h3: "(0 :: real) < 1" by simp
  from self_score [OF h1 h2 h3, of True] h1 h2 h3 show ?thesis by blast
qed

text \<open>
  The claim as stated fails: with the threshold 1 the span IoU of a node with itself is not
  above the threshold, and a node whose time range is empty has span IoU 0 with itself; in
  both cases the score of a one-node tree against itself is 0.
\<close>

theorem self_score_counterexample:
  "well_formed (ETree 0 (0, 1) (1, 1) ''A'' [ELeaf ''x''])
   \<and> struct_iou (ETree 0 (0, 1) (1, 1) ''A'' [ELeaf ''x''])
                 (ETree 0 (0, 1) (1, 1) ''A'' [ELeaf ''x'']) 1 True = Inr 0
   \<and> well_formed (ETree 0 (1, 1) (1, 1) ''A'' [ELeaf ''x''])
   \<and> struct_iou (ETree 0 (1, 1) (1, 1) ''A'' [ELeaf ''x''])
                 (ETree 0 (1, 1) (1, 1) ''A'' [ELeaf ''x'']) 0 True = Inr 0"
proof -
  let ?T = "ETree 0 (0, 1) (1, 1) ''A'' [ELeaf ''x'']"
  let ?U = "ETree 0 (1, 1) (1, 1) ''A'' [ELeaf ''x'']"
  have h1: "well_formed ?T" by (simp add: well_formed_def)
  have h2: "well_formed ?U" by (simp add: well_formed_def)
  have t1: "top_edges 1 True ?T ?T = []" by (simp add: top_edges_def)
  have t2: "top_edges 0 True ?U ?U = []" by (simp add: top_edges_def)
  have i1: "iou_entry 1 ?T ?T = 0"
    by (simp add: iou_entry_def Let_def span_iou_self default_eps_pos default_eps_def)
  have i2: "iou_entry 0 ?U ?U = 0"
    by (simp add: iou_entry_def Let_def span_iou_narrow default_eps_pos)
  have r: "rejects True 0 u v" for u v by (simp add: rejects_def eps_eq_def default_eps_pos)
  have w1: "align_weight 1 True ?T ?T = 0"
    by (subst align_weight_edges) (simp only: Let_def i1 r if_True)
  have w2: "align_weight 0 True ?U ?U = 0"
    by (subst align_weight_edges) (simp only: Let_def i2 r if_True)
  have b1: "best_weight 1 True ?T ?T = 0" by (simp add: best_weight_def w1 t1 best_cell_table0)
  have b2: "best_weight 0 True ?U ?U = 0" by (simp add: best_weight_def w2 t2 best_cell_table0)
  have s1: "struct_iou ?T ?T 1 True = Inr 0" unfolding struct_iou_refines [OF h1 h1] b1 by simp
  have s2: "struct_iou ?U ?U 0 True = Inr 0" unfolding struct_iou_refines [OF h2 h2] b2 by simp
  from h1 h2 s1 s2 show ?thesis by blast
qed

end
